theory Spec2Isabelle
  imports Main "HOL-Library.Word"
begin

section \<open>The task manager of libimhex (\<open>lib/libimhex/source/api/task_manager.cpp\<close>)\<close>

text \<open>
  The embedding follows the source file function by function. A \<open>Task\<close> object is a
  record, the \<open>u64\<close> progress counters are 64-bit words, an exception leaving a function is
  a value returned next to the state the function leaves behind, and the objects owned
  through \<open>std::shared_ptr\<close> live in an explicit store indexed by addresses, so that a
  \<open>std::weak_ptr\<close> is an address that may no longer be allocated.
\<close>

type_synonym u32 = "32 word"
type_synonym u64 = "64 word"

subsection \<open>Callbacks and work functions\<close>

text \<open>
  A \<open>std::function<void()>\<close> cannot be a HOL function on the manager's state, because the
  state holds lists of such callbacks. A callback is therefore the sequence of calls it
  makes: the two registration functions of the task manager, which a callback may call
  again while it runs, and \<open>Local n\<close> for any effect outside the task manager (the tag
  \<open>n\<close> tells callbacks apart).
\<close>

datatype call =
    DoLater "call list"
  | RunWhenTasksFinished "call list"
  | Local nat

type_synonym callback = "call list"

text \<open>
  What can leave \<open>task->m_function(*task)\<close>, one constructor for each \<open>catch\<close> clause of
  the worker loop: \<open>Task::TaskInterruptor\<close>, a \<open>std::exception\<close> with its \<open>what()\<close>, and
  anything else.
\<close>

datatype thrown = TaskInterruptor | StdException string | OtherException

text \<open>
  Modelled from the spec: what a work function can do with the \<open>Task &\<close> it receives.
  The class declaration is in \<open>hex/api/task_manager.hpp\<close>, not in the source file; the
  calls are the mutating member functions of the task's contract (section 4.1 of the
  specification). A statement of a work function is such a call, or a \<open>throw\<close> of an
  exception of the work function's own, a \<open>std::exception\<close> or something else. The
  source file constructs \<open>Task::TaskInterruptor\<close> in \<open>Task::update\<close> and nowhere else.
\<close>

datatype task_call =
    Update u64
  | SetMaxValue u64
  | Interrupt
  | SetInterruptCallback "callback option"
  | ClearException

datatype stmt =
    Call task_call
  | ThrowStd string
  | ThrowOther

subsection \<open>Task\<close>

record task =
  m_unlocalizedName :: string
  m_currValue :: u64
  m_maxValue :: u64
  m_interruptCallback :: "callback option"
  m_function :: "stmt list"
  m_shouldInterrupt :: bool
  m_background :: bool
  m_interrupted :: bool
  m_finished :: bool
  m_hadException :: bool
  m_exceptionMessage :: string

text \<open>
  Modelled from the spec: the default member initialisers of \<open>Task\<close>, which are in
  \<open>hex/api/task_manager.hpp\<close> and not in the source file. The constructor
  \<open>Task::Task(unlocalizedName, maxValue, background, function)\<close> initialises these four
  members; for the others, a new task has made no progress, none of its status flags is
  set ("normal return: leave both failure flags false"), it has no interrupt callback, and
  its message is the empty \<open>std::string\<close>.
\<close>

definition Task :: "string \<Rightarrow> u64 \<Rightarrow> bool \<Rightarrow> stmt list \<Rightarrow> task" where
  "Task unlocalizedName maxValue background function =
     \<lparr> m_unlocalizedName = unlocalizedName,
       m_currValue = 0,
       m_maxValue = maxValue,
       m_interruptCallback = None,
       m_function = function,
       m_shouldInterrupt = False,
       m_background = background,
       m_interrupted = False,
       m_finished = False,
       m_hadException = False,
       m_exceptionMessage = [] \<rparr>"

text \<open>
  \<open>Task::update\<close> stores the value and then throws when interruption was requested. The
  result is the exception leaving the call, if any, and the task as the call leaves it.
\<close>

definition update :: "u64 \<Rightarrow> task \<Rightarrow> thrown option \<times> task" where
  "update v t =
     (let t' = t\<lparr>m_currValue := v\<rparr>
      in if m_shouldInterrupt t' then (Some TaskInterruptor, t') else (None, t'))"

definition setMaxValue :: "u64 \<Rightarrow> task \<Rightarrow> task" where
  "setMaxValue v t = t\<lparr>m_maxValue := v\<rparr>"

text \<open>
  \<open>Task::interrupt\<close> sets the flag and calls the interrupt callback on the current thread
  if one is set. The result is the task and the callback that was called, if any.
\<close>

definition interrupt :: "task \<Rightarrow> task \<times> callback option" where
  "interrupt t = (t\<lparr>m_shouldInterrupt := True\<rparr>, m_interruptCallback t)"

definition setInterruptCallback :: "callback option \<Rightarrow> task \<Rightarrow> task" where
  "setInterruptCallback cb t = t\<lparr>m_interruptCallback := cb\<rparr>"

definition isBackgroundTask :: "task \<Rightarrow> bool" where
  "isBackgroundTask t = m_background t"

definition isFinished :: "task \<Rightarrow> bool" where
  "isFinished t = m_finished t"

definition hadException :: "task \<Rightarrow> bool" where
  "hadException t = m_hadException t"

definition shouldInterrupt :: "task \<Rightarrow> bool" where
  "shouldInterrupt t = m_shouldInterrupt t"

definition wasInterrupted :: "task \<Rightarrow> bool" where
  "wasInterrupted t = m_interrupted t"

definition clearException :: "task \<Rightarrow> task" where
  "clearException t = t\<lparr>m_hadException := False\<rparr>"

definition getExceptionMessage :: "task \<Rightarrow> string" where
  "getExceptionMessage t = m_exceptionMessage t"

definition getUnlocalizedName :: "task \<Rightarrow> string" where
  "getUnlocalizedName t = m_unlocalizedName t"

definition getValue :: "task \<Rightarrow> u64" where
  "getValue t = m_currValue t"

definition getMaxValue :: "task \<Rightarrow> u64" where
  "getMaxValue t = m_maxValue t"

definition finish :: "task \<Rightarrow> task" where
  "finish t = t\<lparr>m_finished := True\<rparr>"

definition interruption :: "task \<Rightarrow> task" where
  "interruption t = t\<lparr>m_interrupted := True\<rparr>"

definition exception :: "string \<Rightarrow> task \<Rightarrow> task" where
  "exception message t = t\<lparr>m_exceptionMessage := message, m_hadException := True\<rparr>"

subsection \<open>Running a work function\<close>

text \<open>
  A call leaves the task changed also when it throws. The interrupt callback that
  \<open>Task::interrupt\<close> calls is outside the task's own state.
\<close>

fun exec_call :: "task_call \<Rightarrow> task \<Rightarrow> thrown option \<times> task" where
  "exec_call (Update v) t = update v t"
| "exec_call (SetMaxValue v) t = (None, setMaxValue v t)"
| "exec_call Interrupt t = (None, fst (interrupt t))"
| "exec_call (SetInterruptCallback cb) t = (None, setInterruptCallback cb t)"
| "exec_call ClearException t = (None, clearException t)"

fun exec_stmt :: "stmt \<Rightarrow> task \<Rightarrow> thrown option \<times> task" where
  "exec_stmt (Call c) t = exec_call c t"
| "exec_stmt (ThrowStd what) t = (Some (StdException what), t)"
| "exec_stmt ThrowOther t = (Some OtherException, t)"

text \<open>
  \<open>task->m_function(*task)\<close>: the statements run in order, and the first exception ends
  the function.
\<close>

fun run_function :: "stmt list \<Rightarrow> task \<Rightarrow> thrown option \<times> task" where
  "run_function [] t = (None, t)"
| "run_function (x # xs) t =
     (case exec_stmt x t of
        (None, t') \<Rightarrow> run_function xs t'
      | (Some e, t') \<Rightarrow> (Some e, t'))"

text \<open>The states of the task after each statement that the function runs.\<close>

fun function_states :: "stmt list \<Rightarrow> task \<Rightarrow> task list" where
  "function_states [] t = []"
| "function_states (x # xs) t =
     (case exec_stmt x t of
        (None, t') \<Rightarrow> t' # function_states xs t'
      | (Some e, t') \<Rightarrow> [t'])"

text \<open>
  The \<open>catch\<close> clauses of the worker loop, in the order of the source: no exception,
  \<open>Task::TaskInterruptor\<close>, \<open>std::exception\<close>, anything else.
\<close>

fun handle :: "thrown option \<Rightarrow> task \<Rightarrow> task" where
  "handle None t = t"
| "handle (Some TaskInterruptor) t = interruption t"
| "handle (Some (StdException what)) t = exception what t"
| "handle (Some OtherException) t = exception ''Unknown Exception'' t"

text \<open>
  The body of the worker loop once a task has been taken from the queue: the \<open>try\<close> block
  with its handlers, then \<open>task->finish()\<close>. Naming the thread and writing to the log are
  left out.
\<close>

definition execute :: "task \<Rightarrow> task" where
  "execute t = (case run_function (m_function t) t of (r, t') \<Rightarrow> finish (handle r t'))"

text \<open>
  Every state of the task that another thread can see during \<open>execute\<close>: the task as it
  was taken from the queue, after each statement of the work function, after the handler,
  and after \<open>finish\<close>.
\<close>

definition execute_states :: "task \<Rightarrow> task list" where
  "execute_states t =
     (case run_function (m_function t) t of
        (r, t') \<Rightarrow> t # function_states (m_function t) t @ [handle r t', finish (handle r t')])"

text \<open>
  All the member functions of \<open>Task\<close> that change the object: the calls of the contract
  and the three functions the worker loop uses. A call that throws has changed the task
  before.
\<close>

datatype task_op =
    Public task_call
  | Finish
  | Interruption
  | Exception string

fun apply_op :: "task_op \<Rightarrow> task \<Rightarrow> task" where
  "apply_op (Public c) t = snd (exec_call c t)"
| "apply_op Finish t = finish t"
| "apply_op Interruption t = interruption t"
| "apply_op (Exception message) t = exception message t"

fun apply_ops :: "task_op list \<Rightarrow> task \<Rightarrow> task" where
  "apply_ops [] t = t"
| "apply_ops (x # xs) t = apply_ops xs (apply_op x t)"

subsection \<open>TaskHolder\<close>

text \<open>
  The store holds the \<open>Task\<close> objects that some \<open>std::shared_ptr\<close> owns. A
  \<open>std::weak_ptr<Task>\<close> is empty or names an address; \<open>lock()\<close> finds the task there
  as long as the object has not been destroyed.
\<close>

type_synonym addr = nat
type_synonym store = "addr \<rightharpoonup> task"

datatype TaskHolder = TaskHolder (m_task: "addr option")

definition lock :: "store \<Rightarrow> addr option \<Rightarrow> task option" where
  "lock st w = (case w of None \<Rightarrow> None | Some a \<Rightarrow> st a)"

definition isRunning :: "store \<Rightarrow> TaskHolder \<Rightarrow> bool" where
  "isRunning st h =
     (case lock st (m_task h) of
        None \<Rightarrow> False
      | Some task \<Rightarrow> \<not> isFinished task)"

definition hadException_holder :: "store \<Rightarrow> TaskHolder \<Rightarrow> bool" where
  "hadException_holder st h =
     (case lock st (m_task h) of
        None \<Rightarrow> False
      | Some task \<Rightarrow> \<not> hadException task)"

definition shouldInterrupt_holder :: "store \<Rightarrow> TaskHolder \<Rightarrow> bool" where
  "shouldInterrupt_holder st h =
     (case lock st (m_task h) of
        None \<Rightarrow> False
      | Some task \<Rightarrow> \<not> shouldInterrupt task)"

definition wasInterrupted_holder :: "store \<Rightarrow> TaskHolder \<Rightarrow> bool" where
  "wasInterrupted_holder st h =
     (case lock st (m_task h) of
        None \<Rightarrow> False
      | Some task \<Rightarrow> \<not> wasInterrupted task)"

text \<open>
  \<open>TaskHolder::interrupt\<close> changes the task in the store; the second component is the
  interrupt callback that was called, if any.
\<close>

definition interrupt_holder :: "store \<Rightarrow> TaskHolder \<Rightarrow> store \<times> callback option" where
  "interrupt_holder st h =
     (case m_task h of
        None \<Rightarrow> (st, None)
      | Some a \<Rightarrow>
          (case st a of
             None \<Rightarrow> (st, None)
           | Some task \<Rightarrow> (st(a \<mapsto> fst (interrupt task)), snd (interrupt task))))"

text \<open>
  \<open>TaskHolder::getProgress\<close>: the product and the quotient are computed in \<open>u64\<close>, and the
  result is converted to \<open>u32\<close>; \<open>return false\<close> is the \<open>u32\<close> 0.
\<close>

definition getProgress :: "store \<Rightarrow> TaskHolder \<Rightarrow> u32" where
  "getProgress st h =
     (case lock st (m_task h) of
        None \<Rightarrow> 0
      | Some task \<Rightarrow>
          if getMaxValue task = 0 then 0
          else ucast ((getValue task * 100) div getMaxValue task))"

subsection \<open>TaskManager\<close>

text \<open>
  The variables of the anonymous namespace. \<open>heap\<close> holds the tasks made by
  \<open>std::make_shared\<close>, and \<open>s_tasks\<close> and \<open>s_taskQueue\<close> hold their addresses; \<open>next_addr\<close>
  is the address of the next allocation. \<open>held\<close> is the set of mutexes that the running
  thread has locked. \<open>invoked\<close> is not a variable of the source: it records every
  callback that is called, in order, so that the properties can speak about calls.
\<close>

datatype mutex = DeferredCallsMutex | TasksFinishedMutex | QueueMutex

record manager =
  heap :: store
  next_addr :: addr
  s_tasks :: "addr list"
  s_taskQueue :: "addr list"
  s_deferredCalls :: "callback list"
  s_tasksFinishedCallbacks :: "callback list"
  held :: "mutex set"
  invoked :: "callback list"

text \<open>
  A \<open>std::mutex\<close> is not recursive. Locking a mutex that the calling thread already owns
  is undefined behaviour, and on the usual implementations the thread blocks for ever: the
  call does not come back. That outcome is the error \<open>Deadlock\<close>. The model follows one
  thread, so a mutex is never held by another one.
\<close>

datatype error = Deadlock

definition scoped_lock ::
  "mutex \<Rightarrow> (manager \<Rightarrow> error + manager) \<Rightarrow> manager \<Rightarrow> error + manager" where
  "scoped_lock m body s =
     (if m \<in> held s then Inl Deadlock
      else case body (s\<lparr>held := insert m (held s)\<rparr>) of
             Inl e \<Rightarrow> Inl e
           | Inr s' \<Rightarrow> Inr (s'\<lparr>held := held s' - {m}\<rparr>))"

definition doLater :: "callback \<Rightarrow> manager \<Rightarrow> error + manager" where
  "doLater function =
     scoped_lock DeferredCallsMutex
       (\<lambda>s. Inr (s\<lparr>s_deferredCalls := s_deferredCalls s @ [function]\<rparr>))"

definition runWhenTasksFinished :: "callback \<Rightarrow> manager \<Rightarrow> error + manager" where
  "runWhenTasksFinished function =
     scoped_lock TasksFinishedMutex
       (\<lambda>s. Inr (s\<lparr>s_tasksFinishedCallbacks := s_tasksFinishedCallbacks s @ [function]\<rparr>))"

text \<open>Calling a callback: \<open>call()\<close> runs the calls of its body in order.\<close>

fun run_call :: "call \<Rightarrow> manager \<Rightarrow> error + manager" where
  "run_call (DoLater f) s = doLater f s"
| "run_call (RunWhenTasksFinished f) s = runWhenTasksFinished f s"
| "run_call (Local n) s = Inr s"

fun run_body :: "call list \<Rightarrow> manager \<Rightarrow> error + manager" where
  "run_body [] s = Inr s"
| "run_body (x # xs) s =
     (case run_call x s of
        Inl e \<Rightarrow> Inl e
      | Inr s' \<Rightarrow> run_body xs s')"

definition invoke :: "callback \<Rightarrow> manager \<Rightarrow> error + manager" where
  "invoke c s = run_body c (s\<lparr>invoked := invoked s @ [c]\<rparr>)"

text \<open>
  \<open>for (auto &call : list) call();\<close> over one of the two \<open>std::list\<close>s of callbacks. The
  loop walks the list itself, not a copy: an element that a callback appends while the
  loop runs is reached by the same loop. The position \<open>i\<close> is the iterator.
\<close>

datatype queue = DeferredCalls | TasksFinishedCallbacks

fun callbacks :: "queue \<Rightarrow> manager \<Rightarrow> callback list" where
  "callbacks DeferredCalls s = s_deferredCalls s"
| "callbacks TasksFinishedCallbacks s = s_tasksFinishedCallbacks s"

text \<open>The callbacks that a call appends to a list, and a size that bounds them.\<close>

fun added :: "queue \<Rightarrow> call \<Rightarrow> callback list" where
  "added DeferredCalls (DoLater f) = [f]"
| "added TasksFinishedCallbacks (RunWhenTasksFinished f) = [f]"
| "added q x = []"

fun weight_call :: "call \<Rightarrow> nat" where
  "weight_call (DoLater f) = Suc (sum_list (map weight_call f))"
| "weight_call (RunWhenTasksFinished f) = Suc (sum_list (map weight_call f))"
| "weight_call (Local n) = 0"

definition weight :: "callback \<Rightarrow> nat" where
  "weight c = Suc (sum_list (map weight_call c))"

lemma scoped_lock_append:
  assumes "scoped_lock m (\<lambda>s. Inr (upd s)) s = Inr s'"
    and "\<And>u. callbacks q (upd u) = callbacks q u @ new"
  shows "callbacks q s' = callbacks q s @ new"
proof -
  from assms(1) have "s' = (upd (s\<lparr>held := insert m (held s)\<rparr>))
      \<lparr>held := held (upd (s\<lparr>held := insert m (held s)\<rparr>)) - {m}\<rparr>"
    by (simp add: scoped_lock_def split: if_splits)
  then have "callbacks q s' = callbacks q (upd (s\<lparr>held := insert m (held s)\<rparr>))"
    by (cases q) simp_all
  also have "\<dots> = callbacks q (s\<lparr>held := insert m (held s)\<rparr>) @ new"
    by (rule assms(2))
  also have "callbacks q (s\<lparr>held := insert m (held s)\<rparr>) = callbacks q s"
    by (cases q) simp_all
  finally show ?thesis .
qed

lemma run_call_callbacks:
  assumes "run_call x s = Inr s'"
  shows "callbacks q s' = callbacks q s @ added q x"
proof (cases x)
  case (DoLater f)
  with assms have "scoped_lock DeferredCallsMutex
      (\<lambda>s. Inr (s\<lparr>s_deferredCalls := s_deferredCalls s @ [f]\<rparr>)) s = Inr s'"
    by (simp add: doLater_def)
  from scoped_lock_append [OF this, of q "added q x"] DoLater show ?thesis
    by (cases q) simp_all
next
  case (RunWhenTasksFinished f)
  with assms have "scoped_lock TasksFinishedMutex
      (\<lambda>s. Inr (s\<lparr>s_tasksFinishedCallbacks := s_tasksFinishedCallbacks s @ [f]\<rparr>)) s = Inr s'"
    by (simp add: runWhenTasksFinished_def)
  from scoped_lock_append [OF this, of q "added q x"] RunWhenTasksFinished show ?thesis
    by (cases q) simp_all
next
  case (Local n)
  with assms show ?thesis by simp
qed

lemma run_body_callbacks:
  "run_body xs s = Inr s' \<Longrightarrow> callbacks q s' = callbacks q s @ concat (map (added q) xs)"
proof (induction xs arbitrary: s)
  case Nil
  then show ?case by simp
next
  case (Cons x xs)
  from Cons.prems obtain s1 where x: "run_call x s = Inr s1" and xs: "run_body xs s1 = Inr s'"
    by (auto split: sum.splits)
  from Cons.IH [OF xs] run_call_callbacks [OF x, of q] show ?case by simp
qed

lemma invoke_callbacks:
  assumes "invoke c s = Inr s'"
  shows "callbacks q s' = callbacks q s @ concat (map (added q) c)"
proof -
  from assms have "run_body c (s\<lparr>invoked := invoked s @ [c]\<rparr>) = Inr s'"
    by (simp add: invoke_def)
  from run_body_callbacks [OF this, of q] show ?thesis
    by (cases q) simp_all
qed

lemma weight_added: "sum_list (map weight (added q x)) \<le> weight_call x"
  by (cases "(q, x)" rule: added.cases) (simp_all add: weight_def)

lemma weight_added_body: "sum_list (map weight (concat (map (added q) xs))) < weight xs"
proof -
  have "sum_list (map weight (concat (map (added q) xs))) \<le> sum_list (map weight_call xs)"
  proof (induction xs)
    case Nil
    show ?case by simp
  next
    case (Cons x xs)
    with weight_added [of q x] show ?case by simp
  qed
  then show ?thesis by (simp add: weight_def)
qed

function for_each_call :: "queue \<Rightarrow> nat \<Rightarrow> manager \<Rightarrow> error + manager" where
  "for_each_call q i s =
     (if i < length (callbacks q s)
      then (case invoke (callbacks q s ! i) s of
              Inl e \<Rightarrow> Inl e
            | Inr s' \<Rightarrow> for_each_call q (Suc i) s')
      else Inr s)"
  by pat_completeness auto
termination
proof (relation "measure (\<lambda>(q, i, s). sum_list (map weight (drop i (callbacks q s))))")
  show "wf (measure (\<lambda>(q, i, s). sum_list (map weight (drop i (callbacks q s)))))"
    by simp
next
  fix q :: queue and i :: nat and s s' :: manager
  assume i: "i < length (callbacks q s)"
    and inv: "invoke (callbacks q s ! i) s = Inr s'"
  let ?c = "callbacks q s ! i"
  let ?new = "concat (map (added q) ?c)"
  have after: "callbacks q s' = callbacks q s @ ?new"
    by (rule invoke_callbacks [OF inv])
  have "drop i (callbacks q s) = ?c # drop (Suc i) (callbacks q s)"
    using i by (simp add: Cons_nth_drop_Suc)
  then have before: "sum_list (map weight (drop i (callbacks q s)))
      = weight ?c + sum_list (map weight (drop (Suc i) (callbacks q s)))"
    by simp
  have "sum_list (map weight (drop (Suc i) (callbacks q s')))
      = sum_list (map weight (drop (Suc i) (callbacks q s))) + sum_list (map weight ?new)"
    using i by (simp add: after)
  with before weight_added_body [of q ?c]
  show "((q, Suc i, s'), (q, i, s))
      \<in> measure (\<lambda>(q, i, s). sum_list (map weight (drop i (callbacks q s))))"
    by simp
qed

declare for_each_call.simps [simp del]

text \<open>
  \<open>TaskManager::runDeferredCalls\<close>: the lock is held while the callbacks run and while
  the list is cleared.
\<close>

definition runDeferredCalls :: "manager \<Rightarrow> error + manager" where
  "runDeferredCalls =
     scoped_lock DeferredCallsMutex
       (\<lambda>s. case for_each_call DeferredCalls 0 s of
               Inl e \<Rightarrow> Inl e
             | Inr s' \<Rightarrow> Inr (s'\<lparr>s_deferredCalls := []\<rparr>))"

text \<open>
  \<open>TaskManager::createTask\<close>, under \<open>s_queueMutex\<close> from its first to its last statement.
  The two other overloads pass \<open>background = false\<close>, and \<open>maxValue = 0\<close> with
  \<open>background = true\<close>.
\<close>

definition createTask ::
  "string \<Rightarrow> u64 \<Rightarrow> bool \<Rightarrow> stmt list \<Rightarrow> manager \<Rightarrow> error + TaskHolder \<times> manager" where
  "createTask name maxValue background function s =
     (if QueueMutex \<in> held s then Inl Deadlock
      else let task = next_addr s
           in Inr (TaskHolder (Some task),
                   s\<lparr>heap := (heap s)(task \<mapsto> Task name maxValue background function),
                     next_addr := Suc task,
                     s_tasks := s_tasks s @ [task],
                     s_taskQueue := s_taskQueue s @ [task]\<rparr>))"

definition createForegroundTask ::
  "string \<Rightarrow> u64 \<Rightarrow> stmt list \<Rightarrow> manager \<Rightarrow> error + TaskHolder \<times> manager" where
  "createForegroundTask name maxValue function = createTask name maxValue False function"

definition createBackgroundTask ::
  "string \<Rightarrow> stmt list \<Rightarrow> manager \<Rightarrow> error + TaskHolder \<times> manager" where
  "createBackgroundTask name function = createTask name 0 True function"

text \<open>
  The predicate of \<open>std::erase_if\<close> in \<open>collectGarbage\<close>, and those of the two
  \<open>std::count_if\<close>. An element of \<open>s_tasks\<close> is never null, so the task is in the heap.
\<close>

definition collectable :: "store \<Rightarrow> addr \<Rightarrow> bool" where
  "collectable st task =
     (case st task of
        None \<Rightarrow> False
      | Some t \<Rightarrow> isFinished t \<and> \<not> hadException t)"

definition foreground_task :: "store \<Rightarrow> addr \<Rightarrow> bool" where
  "foreground_task st task =
     (case st task of
        None \<Rightarrow> False
      | Some t \<Rightarrow> \<not> isBackgroundTask t)"

definition background_task :: "store \<Rightarrow> addr \<Rightarrow> bool" where
  "background_task st task =
     (case st task of
        None \<Rightarrow> False
      | Some t \<Rightarrow> isBackgroundTask t)"

text \<open>
  The first block of \<open>collectGarbage\<close>. Erasing an element drops a \<open>std::shared_ptr\<close>; the
  task is destroyed with its last owner, that is, unless \<open>s_taskQueue\<close> still holds it.
  The destructor of a finished task does nothing.
\<close>

definition erase_finished :: "manager \<Rightarrow> manager" where
  "erase_finished s =
     s\<lparr>s_tasks := filter (\<lambda>task. \<not> collectable (heap s) task) (s_tasks s),
       heap := (\<lambda>a. if a \<in> set (filter (collectable (heap s)) (s_tasks s))
                        \<and> a \<notin> set (s_taskQueue s)
                     then None else heap s a)\<rparr>"

definition collectGarbage :: "manager \<Rightarrow> error + manager" where
  "collectGarbage s =
     (case scoped_lock QueueMutex (\<lambda>s. Inr (erase_finished s)) s of
        Inl e \<Rightarrow> Inl e
      | Inr s1 \<Rightarrow>
          if s_tasks s1 = []
          then scoped_lock DeferredCallsMutex
                 (\<lambda>s. case for_each_call TasksFinishedCallbacks 0 s of
                         Inl e \<Rightarrow> Inl e
                       | Inr s' \<Rightarrow> Inr (s'\<lparr>s_tasksFinishedCallbacks := []\<rparr>)) s1
          else Inr s1)"

definition getRunningTasks :: "manager \<Rightarrow> addr list" where
  "getRunningTasks s = s_tasks s"

definition getRunningTaskCount :: "manager \<Rightarrow> error + nat" where
  "getRunningTaskCount s =
     (if QueueMutex \<in> held s then Inl Deadlock
      else Inr (length (filter (foreground_task (heap s)) (s_tasks s))))"

definition getRunningBackgroundTaskCount :: "manager \<Rightarrow> error + nat" where
  "getRunningBackgroundTaskCount s =
     (if QueueMutex \<in> held s then Inl Deadlock
      else Inr (length (filter (background_task (heap s)) (s_tasks s))))"

text \<open>The task manager before any call: nothing allocated, every list empty, no lock held.\<close>

definition initial :: manager where
  "initial =
     \<lparr> heap = Map.empty, next_addr = 0, s_tasks = [], s_taskQueue = [],
       s_deferredCalls = [], s_tasksFinishedCallbacks = [], held = {}, invoked = [] \<rparr>"

text \<open>
  Predicates on callbacks, for the properties: a callback whose body calls \<open>doLater\<close>,
  one whose body calls \<open>runWhenTasksFinished\<close>, and one that never calls \<open>doLater\<close>,
  neither itself nor through a callback it registers with \<open>runWhenTasksFinished\<close>.
\<close>

fun is_DoLater :: "call \<Rightarrow> bool" where
  "is_DoLater (DoLater f) = True"
| "is_DoLater x = False"

definition calls_doLater :: "callback \<Rightarrow> bool" where
  "calls_doLater c = list_ex is_DoLater c"

fun is_RunWhenTasksFinished :: "call \<Rightarrow> bool" where
  "is_RunWhenTasksFinished (RunWhenTasksFinished f) = True"
| "is_RunWhenTasksFinished x = False"

definition calls_runWhenTasksFinished :: "callback \<Rightarrow> bool" where
  "calls_runWhenTasksFinished c = list_ex is_RunWhenTasksFinished c"

fun never_defers_call :: "call \<Rightarrow> bool" where
  "never_defers_call (DoLater f) = False"
| "never_defers_call (RunWhenTasksFinished f) = list_all never_defers_call f"
| "never_defers_call (Local n) = True"

definition never_defers :: "callback \<Rightarrow> bool" where
  "never_defers c = list_all never_defers_call c"

text \<open>
  The registry and the queue own their tasks: every address in \<open>s_tasks\<close> and in
  \<open>s_taskQueue\<close> is allocated, and allocated addresses are below \<open>next_addr\<close>. The
  functions that change the registry keep this.
\<close>

definition owned :: "manager \<Rightarrow> bool" where
  "owned s =
     (list_all (\<lambda>a. heap s a \<noteq> None) (s_tasks s)
      \<and> list_all (\<lambda>a. heap s a \<noteq> None) (s_taskQueue s))"




section \<open>Properties of a task\<close>


lemma exec_call_flags:
  "m_finished (snd (exec_call c t)) = m_finished t"
  "m_hadException (snd (exec_call c t)) \<longrightarrow> m_hadException t"
  "m_interrupted (snd (exec_call c t)) = m_interrupted t"
  "m_exceptionMessage (snd (exec_call c t)) = m_exceptionMessage t"
  by (cases c, simp_all add: update_def Let_def setMaxValue_def interrupt_def
      setInterruptCallback_def clearException_def)+

text \<open>
  A task is created with its status flags clear, and a request for interruption before
  the worker takes the task from the queue leaves \<open>finished\<close>, \<open>hadException\<close> and
  \<open>interrupted\<close> clear.
\<close>

lemma new_task_flags:
  "\<not> m_finished (Task name maxValue bg function)"
  "\<not> m_hadException (Task name maxValue bg function)"
  "\<not> m_interrupted (Task name maxValue bg function)"
  "m_finished (fst (interrupt t)) = m_finished t"
  "m_hadException (fst (interrupt t)) = m_hadException t"
  "m_interrupted (fst (interrupt t)) = m_interrupted t"
  by (simp_all add: Task_def interrupt_def)

lemma exec_stmt_flags:
  "m_finished (snd (exec_stmt x t)) = m_finished t"
  "m_hadException (snd (exec_stmt x t)) \<longrightarrow> m_hadException t"
  "m_interrupted (snd (exec_stmt x t)) = m_interrupted t"
  by (cases x, simp_all add: exec_call_flags)+

lemma run_function_flags:
  "m_finished (snd (run_function xs t)) = m_finished t
   \<and> (m_hadException (snd (run_function xs t)) \<longrightarrow> m_hadException t)
   \<and> m_interrupted (snd (run_function xs t)) = m_interrupted t"
proof (induction xs arbitrary: t)
  case Nil
  show ?case by simp
next
  case (Cons x xs)
  obtain r t' where step: "exec_stmt x t = (r, t')"
    by (cases "exec_stmt x t")
  have keep: "m_finished t' = m_finished t" "m_hadException t' \<longrightarrow> m_hadException t"
    "m_interrupted t' = m_interrupted t"
    using exec_stmt_flags [of x t] step by simp_all
  show ?case
  proof (cases r)
    case None
    with step keep Cons.IH [of t'] show ?thesis by simp
  next
    case (Some e)
    with step keep show ?thesis by simp
  qed
qed

lemma function_states_unfinished:
  "\<not> m_finished t \<Longrightarrow> u \<in> set (function_states xs t) \<Longrightarrow> \<not> m_finished u"
proof (induction xs arbitrary: t)
  case Nil
  then show ?case by simp
next
  case (Cons x xs)
  obtain r t' where step: "exec_stmt x t = (r, t')"
    by (cases "exec_stmt x t")
  have keep: "\<not> m_finished t'"
    using exec_stmt_flags(1) [of x t] step Cons.prems(1) by simp
  show ?case
  proof (cases r)
    case None
    with step Cons.prems(2) have "u = t' \<or> u \<in> set (function_states xs t')" by simp
    with keep Cons.IH [of t'] show ?thesis by blast
  next
    case (Some e)
    with step Cons.prems(2) have "u = t'" by simp
    with keep show ?thesis by simp
  qed
qed

lemma exec_stmt_interruptor:
  "fst (exec_stmt x t) = Some TaskInterruptor \<Longrightarrow> (\<exists>v. x = Call (Update v)) \<and> m_shouldInterrupt t"
proof (cases x)
  case (Call c)
  assume "fst (exec_stmt x t) = Some TaskInterruptor"
  with Call show ?thesis
    by (cases c) (simp_all add: update_def Let_def split: if_splits)
qed simp_all

lemma run_function_interruptor:
  "fst (run_function xs t) = Some TaskInterruptor \<Longrightarrow> \<exists>v. Call (Update v) \<in> set xs"
proof (induction xs arbitrary: t)
  case Nil
  then show ?case by simp
next
  case (Cons x xs)
  obtain r t' where step: "exec_stmt x t = (r, t')"
    by (cases "exec_stmt x t")
  show ?case
  proof (cases r)
    case None
    with step Cons.prems have "fst (run_function xs t') = Some TaskInterruptor" by simp
    from Cons.IH [OF this] show ?thesis by auto
  next
    case (Some e)
    with step Cons.prems have "fst (exec_stmt x t) = Some TaskInterruptor" by simp
    from exec_stmt_interruptor [OF this] show ?thesis by auto
  qed
qed

text \<open>
  C7. \<open>Task::update(value)\<close>: when interruption has not been requested the call stores
  the value as the current progress and returns; when it has been requested the call
  throws \<open>Task::TaskInterruptor\<close> instead of returning. No other statement of a work
  function throws \<open>Task::TaskInterruptor\<close>: a statement that does is a call of \<open>update\<close>
  made while interruption is requested, and a work function that ends with it contains a
  call of \<open>update\<close>.
\<close>

theorem update_checkpoint:
  "(\<not> m_shouldInterrupt t \<longrightarrow> update v t = (None, t\<lparr>m_currValue := v\<rparr>))
   \<and> (m_shouldInterrupt t \<longrightarrow> fst (update v t) = Some TaskInterruptor)
   \<and> (fst (exec_stmt x t) = Some TaskInterruptor
        \<longrightarrow> (\<exists>w. x = Call (Update w)) \<and> m_shouldInterrupt t)
   \<and> (fst (run_function xs t) = Some TaskInterruptor \<longrightarrow> (\<exists>w. Call (Update w) \<in> set xs))"
  using exec_stmt_interruptor [of x t] run_function_interruptor [of xs t]
  by (simp add: update_def Let_def)


lemma handle_keeps:
  "m_finished (handle r t) = m_finished t"
  "m_currValue (handle r t) = m_currValue t"
  by (cases "(r, t)" rule: handle.cases, simp_all add: interruption_def exception_def)+

lemma handle_finish_value: "getValue (finish (handle r t)) = getValue t"
  by (simp add: getValue_def finish_def handle_keeps)

theorem update_checkpoint_witness:
  "\<not> m_shouldInterrupt (Task ''copy'' 10 False [])
   \<and> update 5 (Task ''copy'' 10 False [])
       = (None, (Task ''copy'' 10 False [])\<lparr>m_currValue := 5\<rparr>)
   \<and> m_shouldInterrupt (fst (interrupt (Task ''copy'' 10 False [])))
   \<and> fst (update 5 (fst (interrupt (Task ''copy'' 10 False [])))) = Some TaskInterruptor
   \<and> fst (exec_stmt (Call (Update 5)) (fst (interrupt (Task ''copy'' 10 False []))))
       = Some TaskInterruptor
   \<and> fst (run_function [Call (Update 5), ThrowOther] (fst (interrupt (Task ''copy'' 10 False []))))
       = Some TaskInterruptor
   \<and> Call (Update 5) \<in> set [Call (Update 5), ThrowOther]"
  using update_checkpoint [of "Task ''copy'' 10 False []" 5 "Call (Update 5)" "[]"]
    update_checkpoint [of "fst (interrupt (Task ''copy'' 10 False []))" 5 "Call (Update 5)"
      "[Call (Update 5), ThrowOther]"]
  by (simp add: Task_def interrupt_def update_def Let_def)

text \<open>
  C10. A call of \<open>Task::update(value)\<close> made while interruption is requested stores the
  value before it throws: the task it leaves behind differs from the one it found only
  in the current progress, which is the value passed, and \<open>getValue\<close> still returns that
  value after the worker has handled the exception and finished the task.
\<close>

theorem update_stores_before_throwing:
  assumes "m_shouldInterrupt t"
  shows "fst (update v t) = Some TaskInterruptor
    \<and> getValue (snd (update v t)) = v
    \<and> snd (update v t) = t\<lparr>m_currValue := v\<rparr>
    \<and> getValue (finish (handle (fst (update v t)) (snd (update v t)))) = v"
  using assms by (simp add: update_def Let_def getValue_def finish_def interruption_def)

theorem update_stores_before_throwing_witness:
  "m_shouldInterrupt (fst (interrupt (Task ''copy'' 10 False [])))
   \<and> fst (update 7 (fst (interrupt (Task ''copy'' 10 False [])))) = Some TaskInterruptor
   \<and> getValue (snd (update 7 (fst (interrupt (Task ''copy'' 10 False []))))) = 7
   \<and> getValue (execute (fst (interrupt (Task ''copy'' 10 False [Call (Update 7), Call (Update 9)])))) = 7"
proof -
  have h: "m_shouldInterrupt (fst (interrupt (Task ''copy'' 10 False [])))"
    by (simp add: interrupt_def Task_def)
  have "getValue (execute (fst (interrupt (Task ''copy'' 10 False [Call (Update 7), Call (Update 9)])))) = 7"
    by (simp add: execute_def interrupt_def Task_def update_def Let_def getValue_def
        finish_def interruption_def)
  with h update_stores_before_throwing [OF h, of 7] show ?thesis by (simp add: getValue_def)
qed

text \<open>
  C4. A task that a worker takes from the queue with none of \<open>finished\<close>, \<open>hadException\<close>,
  \<open>interrupted\<close> set ends in exactly one of three ways, according to how its work function
  ended: returned (neither flag set), cancelled (interrupted only), or failed (exception
  flag only, with the message of the \<open>std::exception\<close>, or \<open>Unknown Exception\<close>). The
  task is finished afterwards, and the only state of the task in which \<open>finished\<close> is set
  is the final one, so whoever sees \<open>finished\<close> sees the outcome.
\<close>

theorem execute_classifies_once:
  assumes "\<not> m_finished t" and "\<not> m_hadException t" and "\<not> m_interrupted t"
  shows "m_finished (execute t)
    \<and> (case fst (run_function (m_function t) t) of
          None \<Rightarrow> \<not> wasInterrupted (execute t) \<and> \<not> hadException (execute t)
        | Some TaskInterruptor \<Rightarrow> wasInterrupted (execute t) \<and> \<not> hadException (execute t)
        | Some (StdException what) \<Rightarrow>
            hadException (execute t) \<and> \<not> wasInterrupted (execute t)
            \<and> getExceptionMessage (execute t) = what
        | Some OtherException \<Rightarrow>
            hadException (execute t) \<and> \<not> wasInterrupted (execute t)
            \<and> getExceptionMessage (execute t) = ''Unknown Exception'')
    \<and> (\<forall>u \<in> set (execute_states t). m_finished u \<longrightarrow> u = execute t)"
proof -
  obtain r t' where run: "run_function (m_function t) t = (r, t')"
    by (cases "run_function (m_function t) t")
  have flags: "\<not> m_finished t'" "\<not> m_hadException t'" "\<not> m_interrupted t'"
    using run_function_flags [of "m_function t" t] run assms by simp_all
  have ex: "execute t = finish (handle r t')"
    by (simp add: execute_def run)
  have fin: "m_finished (execute t)"
    by (simp add: ex finish_def)
  have unfinished: "\<not> m_finished (handle r t')"
    using flags(1) by (simp add: handle_keeps)
  have cls: "case r of
          None \<Rightarrow> \<not> wasInterrupted (execute t) \<and> \<not> hadException (execute t)
        | Some TaskInterruptor \<Rightarrow> wasInterrupted (execute t) \<and> \<not> hadException (execute t)
        | Some (StdException what) \<Rightarrow>
            hadException (execute t) \<and> \<not> wasInterrupted (execute t)
            \<and> getExceptionMessage (execute t) = what
        | Some OtherException \<Rightarrow>
            hadException (execute t) \<and> \<not> wasInterrupted (execute t)
            \<and> getExceptionMessage (execute t) = ''Unknown Exception''"
    using flags
    by (cases "(r, t')" rule: handle.cases)
       (simp_all add: ex finish_def interruption_def exception_def wasInterrupted_def
          hadException_def getExceptionMessage_def)
  have seen: "\<forall>u \<in> set (execute_states t). m_finished u \<longrightarrow> u = execute t"
  proof (intro ballI impI)
    fix u
    assume u: "u \<in> set (execute_states t)" and f: "m_finished u"
    from u have "u = t \<or> u \<in> set (function_states (m_function t) t)
        \<or> u = handle r t' \<or> u = finish (handle r t')"
      by (auto simp add: execute_states_def run)
    with f assms(1) unfinished function_states_unfinished [OF assms(1), of u "m_function t"]
    show "u = execute t" by (auto simp add: ex)
  qed
  from fin cls seen run show ?thesis by simp
qed

theorem execute_classifies_once_witness:
  "\<not> m_finished (Task ''hash'' 10 False [Call (Update 3), ThrowStd ''disk full''])
   \<and> \<not> m_hadException (Task ''hash'' 10 False [Call (Update 3), ThrowStd ''disk full''])
   \<and> \<not> m_interrupted (Task ''hash'' 10 False [Call (Update 3), ThrowStd ''disk full''])
   \<and> m_finished (execute (Task ''hash'' 10 False [Call (Update 3), ThrowStd ''disk full'']))
   \<and> hadException (execute (Task ''hash'' 10 False [Call (Update 3), ThrowStd ''disk full'']))
   \<and> \<not> wasInterrupted (execute (Task ''hash'' 10 False [Call (Update 3), ThrowStd ''disk full'']))
   \<and> getExceptionMessage (execute (Task ''hash'' 10 False [Call (Update 3), ThrowStd ''disk full'']))
       = ''disk full''
   \<and> length (filter m_finished
        (execute_states (Task ''hash'' 10 False [Call (Update 3), ThrowStd ''disk full'']))) = 1"
proof -
  let ?t = "Task ''hash'' 10 False [Call (Update 3), ThrowStd ''disk full'']"
  have h: "\<not> m_finished ?t" "\<not> m_hadException ?t" "\<not> m_interrupted ?t"
    by (simp_all add: Task_def)
  have r: "fst (run_function (m_function ?t) ?t) = Some (StdException ''disk full'')"
    by (simp add: Task_def update_def Let_def)
  have n: "length (filter m_finished (execute_states ?t)) = 1"
    by (simp add: execute_states_def Task_def update_def Let_def exception_def finish_def)
  from execute_classifies_once [OF h] r n h show ?thesis by simp
qed

lemma apply_op_message:
  "x \<noteq> Public ClearException \<Longrightarrow>
   (m_exceptionMessage t \<noteq> [] \<longrightarrow> m_hadException t) \<Longrightarrow>
   m_exceptionMessage (apply_op x t) \<noteq> [] \<longrightarrow> m_hadException (apply_op x t)"
proof (cases x)
  case (Public c)
  assume "x \<noteq> Public ClearException"
    and "m_exceptionMessage t \<noteq> [] \<longrightarrow> m_hadException t"
  with Public show ?thesis
    by (cases c) (simp_all add: update_def Let_def setMaxValue_def interrupt_def
        setInterruptCallback_def)
qed (simp_all add: finish_def interruption_def exception_def)

lemma apply_ops_message:
  "Public ClearException \<notin> set ops \<Longrightarrow>
   (m_exceptionMessage t \<noteq> [] \<longrightarrow> m_hadException t) \<Longrightarrow>
   m_exceptionMessage (apply_ops ops t) \<noteq> [] \<longrightarrow> m_hadException (apply_ops ops t)"
proof (induction ops arbitrary: t)
  case Nil
  then show ?case by simp
next
  case (Cons x xs)
  from Cons.prems have "x \<noteq> Public ClearException" and "Public ClearException \<notin> set xs"
    by auto
  with Cons.IH [of "apply_op x t"] apply_op_message [of x t] Cons.prems(2)
  show ?case by simp
qed

text \<open>
  C9 as stated fails: after \<open>exception("read error")\<close> and \<open>clearException()\<close> the
  message is still there and \<open>hadException\<close> is false, because \<open>clearException\<close> writes the
  flag only.
\<close>

theorem message_after_clearException_counterexample:
  "getExceptionMessage
     (apply_ops [Exception ''read error'', Public ClearException] (Task ''load'' 0 False []))
     = ''read error''
   \<and> \<not> hadException
     (apply_ops [Exception ''read error'', Public ClearException] (Task ''load'' 0 False []))"
  by (simp add: Task_def exception_def clearException_def getExceptionMessage_def
      hadException_def)

text \<open>
  C9, amended. In every state that a new task reaches by a sequence of its operations
  without \<open>clearException()\<close>, the exception message is non-empty only when \<open>hadException\<close>
  is true; \<open>clearException()\<close> resets the flag and leaves the message as it is.
\<close>

theorem message_only_with_flag:
  "(Public ClearException \<notin> set ops \<longrightarrow>
      getExceptionMessage (apply_ops ops (Task name maxValue background function)) \<noteq> [] \<longrightarrow>
      hadException (apply_ops ops (Task name maxValue background function)))
   \<and> getExceptionMessage (clearException t) = getExceptionMessage t
   \<and> \<not> hadException (clearException t)"
proof -
  have "m_exceptionMessage (Task name maxValue background function) \<noteq> []
      \<longrightarrow> m_hadException (Task name maxValue background function)"
    by (simp add: Task_def)
  from apply_ops_message [OF _ this, of ops] show ?thesis
    by (simp add: getExceptionMessage_def hadException_def clearException_def)
qed

theorem message_only_with_flag_witness:
  "Public ClearException \<notin> set [Public (Update 4), Exception ''read error'', Finish]
   \<and> getExceptionMessage
       (apply_ops [Public (Update 4), Exception ''read error'', Finish] (Task ''load'' 8 False []))
       = ''read error''
   \<and> hadException
       (apply_ops [Public (Update 4), Exception ''read error'', Finish] (Task ''load'' 8 False []))"
proof -
  have a: "Public ClearException \<notin> set [Public (Update 4), Exception ''read error'', Finish]"
    by simp
  have b: "getExceptionMessage
       (apply_ops [Public (Update 4), Exception ''read error'', Finish] (Task ''load'' 8 False []))
       = ''read error''"
    by (simp add: Task_def update_def Let_def exception_def finish_def getExceptionMessage_def)
  from message_only_with_flag [of "[Public (Update 4), Exception ''read error'', Finish]"
      "''load''" 8 False "[]"] a b
  show ?thesis by simp
qed

section \<open>Properties of a task holder\<close>

lemma unat_progress:
  fixes c m :: u64
  shows "unat (ucast ((c * 100) div m) :: u32) = ((unat c * 100) mod 2 ^ 64 div unat m) mod 2 ^ 32"
  by (simp add: unsigned_ucast_eq unat_div unat_word_ariths take_bit_eq_mod)

lemma holder_dead:
  assumes "lock st (m_task h) = None"
  shows "\<not> isRunning st h" and "\<not> hadException_holder st h"
    and "\<not> shouldInterrupt_holder st h" and "\<not> wasInterrupted_holder st h"
    and "getProgress st h = 0"
  using assms
  by (simp_all add: isRunning_def hadException_holder_def shouldInterrupt_holder_def
      wasInterrupted_holder_def getProgress_def)

lemma holder_alive:
  assumes "lock st (m_task h) = Some task"
  shows "isRunning st h = (\<not> isFinished task)"
    and "hadException_holder st h = (\<not> hadException task)"
    and "shouldInterrupt_holder st h = (\<not> shouldInterrupt task)"
    and "wasInterrupted_holder st h = (\<not> wasInterrupted task)"
  using assms
  by (simp_all add: isRunning_def hadException_holder_def shouldInterrupt_holder_def
      wasInterrupted_holder_def)

text \<open>
  C1 says that on a live task \<open>hadException()\<close>, \<open>wasInterrupted()\<close> and
  \<open>shouldInterrupt()\<close> of the holder return the task's flag. The source returns the
  negation (\<open>holder_alive\<close>): for a task that was just created, with none of its flags
  set, each of the three accessors of its holder returns true. On a dead holder all
  accessors return false (\<open>holder_dead\<close>).
\<close>

theorem holder_status_inverted:
  "lock [0 \<mapsto> Task ''load'' 0 False []] (m_task (TaskHolder (Some 0)))
     = Some (Task ''load'' 0 False [])
   \<and> hadException (Task ''load'' 0 False []) = False
   \<and> hadException_holder [0 \<mapsto> Task ''load'' 0 False []] (TaskHolder (Some 0)) = True
   \<and> wasInterrupted (Task ''load'' 0 False []) = False
   \<and> wasInterrupted_holder [0 \<mapsto> Task ''load'' 0 False []] (TaskHolder (Some 0)) = True
   \<and> shouldInterrupt (Task ''load'' 0 False []) = False
   \<and> shouldInterrupt_holder [0 \<mapsto> Task ''load'' 0 False []] (TaskHolder (Some 0)) = True"
  by (simp add: lock_def hadException_holder_def wasInterrupted_holder_def
      shouldInterrupt_holder_def Task_def hadException_def wasInterrupted_def
      shouldInterrupt_def)

text \<open>
  C8 as stated fails: with a current value of \<open>2^32\<close> and a ceiling of 100 the quotient
  \<open>floor(current * 100 / max)\<close> is \<open>2^32\<close>, and \<open>getProgress\<close> returns 0, because the
  result is converted to \<open>u32\<close>.
\<close>

theorem getProgress_wraps_counterexample:
  "lock [0 \<mapsto> snd (update 4294967296 (Task ''load'' 100 False []))] (m_task (TaskHolder (Some 0)))
     = Some (snd (update 4294967296 (Task ''load'' 100 False [])))
   \<and> unat (getValue (snd (update 4294967296 (Task ''load'' 100 False [])))) * 100
       div unat (getMaxValue (snd (update 4294967296 (Task ''load'' 100 False []))))
     = 4294967296
   \<and> unat (getProgress [0 \<mapsto> snd (update 4294967296 (Task ''load'' 100 False []))]
        (TaskHolder (Some 0))) = 0"
  by (simp add: lock_def getProgress_def update_def Let_def Task_def getValue_def
      getMaxValue_def)

text \<open>
  C8, amended. \<open>getProgress\<close> returns 0 when the referent is gone or its ceiling is 0.
  Otherwise it returns the quotient of \<open>current * 100\<close>, taken modulo \<open>2^64\<close>, by the
  ceiling, taken modulo \<open>2^32\<close>; this is \<open>floor(current * 100 / max)\<close> whenever the
  product is below \<open>2^64\<close> and the quotient below \<open>2^32\<close>. Nothing clamps the result to
  100.
\<close>

theorem getProgress_value:
  "(lock st (m_task h) = None \<longrightarrow> getProgress st h = 0)
   \<and> (lock st (m_task h) = Some task \<and> getMaxValue task = 0 \<longrightarrow> getProgress st h = 0)
   \<and> (lock st (m_task h) = Some task \<and> getMaxValue task \<noteq> 0 \<longrightarrow>
        unat (getProgress st h)
          = ((unat (getValue task) * 100) mod 2 ^ 64 div unat (getMaxValue task)) mod 2 ^ 32)
   \<and> (lock st (m_task h) = Some task \<and> getMaxValue task \<noteq> 0
        \<and> unat (getValue task) * 100 < 2 ^ 64
        \<and> unat (getValue task) * 100 div unat (getMaxValue task) < 2 ^ 32 \<longrightarrow>
        unat (getProgress st h) = unat (getValue task) * 100 div unat (getMaxValue task))"
  by (simp add: getProgress_def unat_progress)

theorem getProgress_value_witness:
  "lock Map.empty (m_task (TaskHolder (Some 0))) = None
   \<and> getProgress Map.empty (TaskHolder (Some 0)) = 0
   \<and> lock [0 \<mapsto> Task ''scan'' 0 True []] (m_task (TaskHolder (Some 0)))
       = Some (Task ''scan'' 0 True [])
   \<and> getMaxValue (Task ''scan'' 0 True []) = 0
   \<and> getProgress [0 \<mapsto> Task ''scan'' 0 True []] (TaskHolder (Some 0)) = 0
   \<and> lock [0 \<mapsto> snd (update 30 (Task ''load'' 10 False []))] (m_task (TaskHolder (Some 0)))
       = Some (snd (update 30 (Task ''load'' 10 False [])))
   \<and> getMaxValue (snd (update 30 (Task ''load'' 10 False []))) \<noteq> 0
   \<and> unat (getValue (snd (update 30 (Task ''load'' 10 False [])))) * 100 < 2 ^ 64
   \<and> unat (getValue (snd (update 30 (Task ''load'' 10 False [])))) * 100
       div unat (getMaxValue (snd (update 30 (Task ''load'' 10 False [])))) < 2 ^ 32
   \<and> unat (getProgress [0 \<mapsto> snd (update 30 (Task ''load'' 10 False []))] (TaskHolder (Some 0)))
       = 300"
proof -
  have a: "lock Map.empty (m_task (TaskHolder (Some 0))) = None"
    by (simp add: lock_def)
  have b: "lock [0 \<mapsto> Task ''scan'' 0 True []] (m_task (TaskHolder (Some 0)))
       = Some (Task ''scan'' 0 True []) \<and> getMaxValue (Task ''scan'' 0 True []) = 0"
    by (simp add: lock_def getMaxValue_def Task_def)
  have c: "lock [0 \<mapsto> snd (update 30 (Task ''load'' 10 False []))] (m_task (TaskHolder (Some 0)))
       = Some (snd (update 30 (Task ''load'' 10 False [])))
     \<and> getMaxValue (snd (update 30 (Task ''load'' 10 False []))) \<noteq> 0
     \<and> unat (getValue (snd (update 30 (Task ''load'' 10 False [])))) * 100 < 2 ^ 64
     \<and> unat (getValue (snd (update 30 (Task ''load'' 10 False [])))) * 100
         div unat (getMaxValue (snd (update 30 (Task ''load'' 10 False [])))) < 2 ^ 32"
    by (simp add: lock_def getMaxValue_def getValue_def Task_def update_def Let_def)
  have d: "unat (getValue (snd (update 30 (Task ''load'' 10 False [])))) * 100
         div unat (getMaxValue (snd (update 30 (Task ''load'' 10 False [])))) = 300"
    by (simp add: getMaxValue_def getValue_def Task_def update_def Let_def)
  from getProgress_value [of Map.empty "TaskHolder (Some 0)"] a
  have 1: "getProgress Map.empty (TaskHolder (Some 0)) = 0" by simp
  from getProgress_value [of "[0 \<mapsto> Task ''scan'' 0 True []]" "TaskHolder (Some 0)"
      "Task ''scan'' 0 True []"] b
  have 2: "getProgress [0 \<mapsto> Task ''scan'' 0 True []] (TaskHolder (Some 0)) = 0" by simp
  from getProgress_value [of "[0 \<mapsto> snd (update 30 (Task ''load'' 10 False []))]"
      "TaskHolder (Some 0)" "snd (update 30 (Task ''load'' 10 False []))"] c d
  have 3: "unat (getProgress [0 \<mapsto> snd (update 30 (Task ''load'' 10 False []))]
      (TaskHolder (Some 0))) = 300" by simp
  from a b c 1 2 3 show ?thesis by simp
qed

section \<open>Properties of the task manager\<close>

lemma scoped_lock_update:
  assumes "scoped_lock m (\<lambda>s. Inr (upd s)) s = Inr s'"
    and "\<And>u. held (upd u) = held u"
  shows "m \<notin> held s" and "s' = (upd (s\<lparr>held := insert m (held s)\<rparr>))\<lparr>held := held s\<rparr>"
proof -
  from assms(1) show m: "m \<notin> held s"
    by (simp add: scoped_lock_def split: if_splits)
  from assms(1) m have "s' = (upd (s\<lparr>held := insert m (held s)\<rparr>))
      \<lparr>held := held (upd (s\<lparr>held := insert m (held s)\<rparr>)) - {m}\<rparr>"
    by (simp add: scoped_lock_def)
  with m assms(2) show "s' = (upd (s\<lparr>held := insert m (held s)\<rparr>))\<lparr>held := held s\<rparr>"
    by simp
qed

lemma doLater_result:
  "doLater f s = (if DeferredCallsMutex \<in> held s then Inl Deadlock
                  else Inr (s\<lparr>s_deferredCalls := s_deferredCalls s @ [f]\<rparr>))"
  by (simp add: doLater_def scoped_lock_def insert_Diff_single)

lemma runWhenTasksFinished_result:
  "runWhenTasksFinished f s = (if TasksFinishedMutex \<in> held s then Inl Deadlock
     else Inr (s\<lparr>s_tasksFinishedCallbacks := s_tasksFinishedCallbacks s @ [f]\<rparr>))"
  by (simp add: runWhenTasksFinished_def scoped_lock_def)

lemma run_call_frame:
  assumes "run_call x s = Inr s'"
  shows "heap s' = heap s" and "next_addr s' = next_addr s" and "s_tasks s' = s_tasks s"
    and "s_taskQueue s' = s_taskQueue s" and "held s' = held s" and "invoked s' = invoked s"
  using assms
  by (cases x, auto simp add: doLater_result runWhenTasksFinished_result split: if_splits)+


lemma run_body_frame:
  "run_body xs s = Inr s' \<Longrightarrow>
   heap s' = heap s \<and> next_addr s' = next_addr s \<and> s_tasks s' = s_tasks s
   \<and> s_taskQueue s' = s_taskQueue s \<and> held s' = held s \<and> invoked s' = invoked s"
proof (induction xs arbitrary: s)
  case Nil
  then show ?case by simp
next
  case (Cons x xs)
  from Cons.prems obtain s1 where x: "run_call x s = Inr s1" and xs: "run_body xs s1 = Inr s'"
    by (auto split: sum.splits)
  from Cons.IH [OF xs] run_call_frame [OF x] show ?case by simp
qed

lemma invoke_frame:
  assumes "invoke c s = Inr s'"
  shows "heap s' = heap s \<and> next_addr s' = next_addr s \<and> s_tasks s' = s_tasks s
   \<and> s_taskQueue s' = s_taskQueue s \<and> held s' = held s \<and> invoked s' = invoked s @ [c]"
proof -
  from assms have "run_body c (s\<lparr>invoked := invoked s @ [c]\<rparr>) = Inr s'"
    by (simp add: invoke_def)
  from run_body_frame [OF this] show ?thesis by simp
qed

text \<open>
  When the loop over a list of callbacks comes to its end, the tasks and the locks are as
  before, the list has only grown at its end, and every callback that is in the list now,
  from the position where the loop started, has been called once, in the order of the
  list.
\<close>

lemma for_each_call_invoked:
  "for_each_call q i s = Inr s' \<Longrightarrow> i \<le> length (callbacks q s) \<Longrightarrow>
   heap s' = heap s \<and> next_addr s' = next_addr s \<and> s_tasks s' = s_tasks s
   \<and> s_taskQueue s' = s_taskQueue s \<and> held s' = held s
   \<and> (\<exists>extra. callbacks q s' = callbacks q s @ extra)
   \<and> invoked s' = invoked s @ drop i (callbacks q s')"
proof (induction q i s rule: for_each_call.induct)
  case (1 q i s)
  show ?case
  proof (cases "i < length (callbacks q s)")
    case False
    with "1.prems" have "s' = s" and "i = length (callbacks q s)"
      by (simp_all add: for_each_call.simps [of q i s])
    then show ?thesis by simp
  next
    case True
    with "1.prems"(1) obtain s1 where inv: "invoke (callbacks q s ! i) s = Inr s1"
      and rest: "for_each_call q (Suc i) s1 = Inr s'"
      by (auto simp add: for_each_call.simps [of q i s] split: sum.splits)
    have grow: "callbacks q s1 = callbacks q s @ concat (map (added q) (callbacks q s ! i))"
      by (rule invoke_callbacks [OF inv])
    with True have le: "Suc i \<le> length (callbacks q s1)" by simp
    from "1.IH" [OF True inv rest le] obtain extra where
      frame: "heap s' = heap s1" "next_addr s' = next_addr s1" "s_tasks s' = s_tasks s1"
        "s_taskQueue s' = s_taskQueue s1" "held s' = held s1"
      and ext: "callbacks q s' = callbacks q s1 @ extra"
      and inv': "invoked s' = invoked s1 @ drop (Suc i) (callbacks q s')"
      by blast
    from ext grow have all: "callbacks q s'
        = callbacks q s @ concat (map (added q) (callbacks q s ! i)) @ extra"
      by simp
    with True have nth: "callbacks q s' ! i = callbacks q s ! i"
      by (simp add: nth_append)
    from all True have "i < length (callbacks q s')" by simp
    then have "drop i (callbacks q s') = callbacks q s' ! i # drop (Suc i) (callbacks q s')"
      by (simp add: Cons_nth_drop_Suc)
    with nth inv' invoke_frame [OF inv] have "invoked s' = invoked s @ drop i (callbacks q s')"
      by simp
    with frame invoke_frame [OF inv] all show ?thesis by simp
  qed
qed

lemma run_body_returns:
  "TasksFinishedMutex \<notin> held s \<Longrightarrow> \<not> calls_doLater xs \<Longrightarrow> \<exists>s'. run_body xs s = Inr s'"
proof (induction xs arbitrary: s)
  case Nil
  show ?case by simp
next
  case (Cons x xs)
  from Cons.prems(2) have x: "\<not> is_DoLater x" and xs: "\<not> calls_doLater xs"
    by (simp_all add: calls_doLater_def)
  from x Cons.prems(1) obtain s1 where s1: "run_call x s = Inr s1"
    by (cases x) (simp_all add: runWhenTasksFinished_result)
  from run_call_frame(5) [OF s1] Cons.prems(1) have "TasksFinishedMutex \<notin> held s1" by simp
  from Cons.IH [OF this xs] s1 show ?case by simp
qed

lemma invoke_returns:
  "TasksFinishedMutex \<notin> held s \<Longrightarrow> \<not> calls_doLater c \<Longrightarrow> \<exists>s'. invoke c s = Inr s'"
  using run_body_returns [of "s\<lparr>invoked := invoked s @ [c]\<rparr>" c] by (simp add: invoke_def)

lemma for_each_call_returns:
  assumes P1: "\<And>q c. P q c \<Longrightarrow> \<not> calls_doLater c"
    and P2: "\<And>q c. P q c \<Longrightarrow> list_all (P q) (concat (map (added q) c))"
  shows "TasksFinishedMutex \<notin> held s \<Longrightarrow> list_all (P q) (drop i (callbacks q s)) \<Longrightarrow>
    \<exists>s'. for_each_call q i s = Inr s'"
proof (induction q i s rule: for_each_call.induct)
  case (1 q i s)
  show ?case
  proof (cases "i < length (callbacks q s)")
    case False
    then show ?thesis by (simp add: for_each_call.simps [of q i s])
  next
    case True
    then have split: "drop i (callbacks q s)
        = callbacks q s ! i # drop (Suc i) (callbacks q s)"
      by (simp add: Cons_nth_drop_Suc)
    with "1.prems"(2) have Pc: "P q (callbacks q s ! i)"
      and Prest: "list_all (P q) (drop (Suc i) (callbacks q s))"
      by simp_all
    from invoke_returns [OF "1.prems"(1) P1 [OF Pc]] obtain s1
      where inv: "invoke (callbacks q s ! i) s = Inr s1" by blast
    have held1: "TasksFinishedMutex \<notin> held s1"
      using invoke_frame [OF inv] "1.prems"(1) by simp
    have grow: "callbacks q s1
        = callbacks q s @ concat (map (added q) (callbacks q s ! i))"
      by (rule invoke_callbacks [OF inv])
    with True have "drop (Suc i) (callbacks q s1)
        = drop (Suc i) (callbacks q s) @ concat (map (added q) (callbacks q s ! i))"
      by simp
    with Prest P2 [OF Pc] have "list_all (P q) (drop (Suc i) (callbacks q s1))"
      by simp
    from "1.IH" [OF True inv held1 this] show ?thesis
      using True inv by (simp add: for_each_call.simps [of q i s])
  qed
qed

text \<open>
  The callbacks that come back when they run inside a loop over the given list: in
  \<open>runDeferredCalls\<close> one that does not call \<open>doLater\<close>, in \<open>collectGarbage\<close> one that
  never does, since the callbacks it registers run in the same loop.
\<close>

lemma never_defers_added:
  "never_defers c \<Longrightarrow> list_all never_defers (concat (map (added TasksFinishedCallbacks) c))"
proof (induction c)
  case Nil
  show ?case by simp
next
  case (Cons x xs)
  then have x: "never_defers_call x" and xs: "never_defers xs"
    by (simp_all add: never_defers_def)
  from x have "list_all never_defers (added TasksFinishedCallbacks x)"
    by (cases x) (simp_all add: never_defers_def)
  with Cons.IH [OF xs] show ?case by simp
qed

lemma never_defers_no_doLater: "never_defers c \<Longrightarrow> \<not> calls_doLater c"
proof (induction c)
  case Nil
  show ?case by (simp add: calls_doLater_def)
next
  case (Cons x xs)
  then have x: "never_defers_call x" and xs: "never_defers xs"
    by (simp_all add: never_defers_def)
  from x have "\<not> is_DoLater x" by (cases x) simp_all
  with Cons.IH [OF xs] show ?case by (simp add: calls_doLater_def)
qed

lemma no_doLater_added:
  "\<not> calls_doLater c \<Longrightarrow> concat (map (added DeferredCalls) c) = []"
proof (induction c)
  case Nil
  show ?case by simp
next
  case (Cons x xs)
  then have x: "\<not> is_DoLater x" and xs: "\<not> calls_doLater xs"
    by (simp_all add: calls_doLater_def)
  from x have "added DeferredCalls x = []" by (cases x) simp_all
  with Cons.IH [OF xs] show ?case by simp
qed

lemma for_each_deferred_returns:
  assumes "TasksFinishedMutex \<notin> held s"
    and "list_all (\<lambda>c. \<not> calls_doLater c) (drop i (s_deferredCalls s))"
  shows "\<exists>s'. for_each_call DeferredCalls i s = Inr s'"
proof -
  let ?P = "\<lambda>q c. case q of DeferredCalls \<Rightarrow> \<not> calls_doLater c
                           | TasksFinishedCallbacks \<Rightarrow> never_defers c"
  have 1: "\<And>q c. ?P q c \<Longrightarrow> \<not> calls_doLater c"
    by (auto simp add: never_defers_no_doLater split: queue.splits)
  have 2: "\<And>q c. ?P q c \<Longrightarrow> list_all (?P q) (concat (map (added q) c))"
    by (auto simp add: never_defers_added no_doLater_added split: queue.splits)
  from assms(2) have "list_all (?P DeferredCalls) (drop i (callbacks DeferredCalls s))"
    by simp
  from for_each_call_returns [of ?P, OF 1 2 assms(1) this] show ?thesis .
qed

lemma for_each_finished_returns:
  assumes "TasksFinishedMutex \<notin> held s"
    and "list_all never_defers (drop i (s_tasksFinishedCallbacks s))"
  shows "\<exists>s'. for_each_call TasksFinishedCallbacks i s = Inr s'"
proof -
  let ?P = "\<lambda>q c. case q of DeferredCalls \<Rightarrow> \<not> calls_doLater c
                           | TasksFinishedCallbacks \<Rightarrow> never_defers c"
  have 1: "\<And>q c. ?P q c \<Longrightarrow> \<not> calls_doLater c"
    by (auto simp add: never_defers_no_doLater split: queue.splits)
  have 2: "\<And>q c. ?P q c \<Longrightarrow> list_all (?P q) (concat (map (added q) c))"
    by (auto simp add: never_defers_added no_doLater_added split: queue.splits)
  from assms(2) have "list_all (?P TasksFinishedCallbacks)
      (drop i (callbacks TasksFinishedCallbacks s))"
    by simp
  from for_each_call_returns [of ?P, OF 1 2 assms(1) this] show ?thesis .
qed

text \<open>While the running thread holds \<open>s_deferredCallsMutex\<close>, no call adds a deferred call.\<close>

lemma run_call_deferred_locked:
  "run_call x s = Inr s' \<Longrightarrow> DeferredCallsMutex \<in> held s \<Longrightarrow>
   s_deferredCalls s' = s_deferredCalls s"
  by (cases x) (auto simp add: doLater_result runWhenTasksFinished_result split: if_splits)

lemma run_body_deferred_locked:
  "run_body xs s = Inr s' \<Longrightarrow> DeferredCallsMutex \<in> held s \<Longrightarrow>
   s_deferredCalls s' = s_deferredCalls s"
proof (induction xs arbitrary: s)
  case Nil
  then show ?case by simp
next
  case (Cons x xs)
  from Cons.prems(1) obtain s1 where x: "run_call x s = Inr s1"
    and xs: "run_body xs s1 = Inr s'"
    by (auto split: sum.splits)
  from run_call_frame(5) [OF x] Cons.prems(2) have "DeferredCallsMutex \<in> held s1" by simp
  from Cons.IH [OF xs this] run_call_deferred_locked [OF x Cons.prems(2)] show ?case by simp
qed

lemma invoke_deferred_locked:
  assumes "invoke c s = Inr s'" and "DeferredCallsMutex \<in> held s"
  shows "s_deferredCalls s' = s_deferredCalls s"
  using run_body_deferred_locked [of c "s\<lparr>invoked := invoked s @ [c]\<rparr>" s'] assms
  by (simp add: invoke_def)

lemma for_each_call_deferred_locked:
  "for_each_call q i s = Inr s' \<Longrightarrow> DeferredCallsMutex \<in> held s \<Longrightarrow>
   s_deferredCalls s' = s_deferredCalls s"
proof (induction q i s rule: for_each_call.induct)
  case (1 q i s)
  show ?case
  proof (cases "i < length (callbacks q s)")
    case False
    with "1.prems"(1) show ?thesis by (simp add: for_each_call.simps [of q i s])
  next
    case True
    with "1.prems"(1) obtain s1 where inv: "invoke (callbacks q s ! i) s = Inr s1"
      and rest: "for_each_call q (Suc i) s1 = Inr s'"
      by (auto simp add: for_each_call.simps [of q i s] split: sum.splits)
    from invoke_frame [OF inv] "1.prems"(2) have "DeferredCallsMutex \<in> held s1" by simp
    from "1.IH" [OF True inv rest this] invoke_deferred_locked [OF inv "1.prems"(2)]
    show ?thesis by simp
  qed
qed

lemma runDeferredCalls_invoked:
  assumes "runDeferredCalls s = Inr s'"
  shows "DeferredCallsMutex \<notin> held s \<and> held s' = held s
    \<and> heap s' = heap s \<and> s_tasks s' = s_tasks s \<and> s_taskQueue s' = s_taskQueue s
    \<and> invoked s' = invoked s @ s_deferredCalls s
    \<and> s_deferredCalls s' = []"
proof -
  let ?s0 = "s\<lparr>held := insert DeferredCallsMutex (held s)\<rparr>"
  from assms have free: "DeferredCallsMutex \<notin> held s"
    by (simp add: runDeferredCalls_def scoped_lock_def split: if_splits)
  with assms obtain s1 where loop: "for_each_call DeferredCalls 0 ?s0 = Inr s1"
    and s': "s' = s1\<lparr>s_deferredCalls := [], held := held s1 - {DeferredCallsMutex}\<rparr>"
    by (auto simp add: runDeferredCalls_def scoped_lock_def split: sum.splits)
  from for_each_call_invoked [OF loop] have
    frame: "heap s1 = heap ?s0" "s_tasks s1 = s_tasks ?s0" "s_taskQueue s1 = s_taskQueue ?s0"
      "held s1 = held ?s0"
    and inv: "invoked s1 = invoked ?s0 @ drop 0 (callbacks DeferredCalls s1)"
    by auto
  from for_each_call_deferred_locked [OF loop] have "s_deferredCalls s1 = s_deferredCalls s"
    by simp
  with inv have "invoked s' = invoked s @ s_deferredCalls s"
    by (simp add: s')
  with free frame s' show ?thesis by simp
qed

lemma runDeferredCalls_returns:
  assumes "DeferredCallsMutex \<notin> held s" and "TasksFinishedMutex \<notin> held s"
    and "list_all (\<lambda>c. \<not> calls_doLater c) (s_deferredCalls s)"
  shows "\<exists>s'. runDeferredCalls s = Inr s'"
proof -
  let ?s0 = "s\<lparr>held := insert DeferredCallsMutex (held s)\<rparr>"
  have "TasksFinishedMutex \<notin> held ?s0"
    and "list_all (\<lambda>c. \<not> calls_doLater c) (drop 0 (s_deferredCalls ?s0))"
    using assms by simp_all
  from for_each_deferred_returns [OF this] obtain s1
    where loop: "for_each_call DeferredCalls 0 ?s0 = Inr s1" by blast
  then show ?thesis
    using assms(1) by (simp add: runDeferredCalls_def scoped_lock_def)
qed

text \<open>
  The converse: a callback that calls \<open>doLater\<close> under \<open>s_deferredCallsMutex\<close> does not
  come back, and neither does the loop that calls it.
\<close>

lemma run_body_deadlock:
  "calls_doLater xs \<Longrightarrow> DeferredCallsMutex \<in> held s \<Longrightarrow> run_body xs s = Inl Deadlock"
proof (induction xs arbitrary: s)
  case Nil
  then show ?case by (simp add: calls_doLater_def)
next
  case (Cons x xs)
  show ?case
  proof (cases "run_call x s")
    case (Inl e)
    then show ?thesis by (cases e) simp
  next
    case (Inr s1)
    from run_call_frame(5) [OF Inr] Cons.prems(2) have held1: "DeferredCallsMutex \<in> held s1"
      by simp
    from Inr Cons.prems(2) have "\<not> is_DoLater x"
      by (cases x) (simp_all add: doLater_result)
    with Cons.prems(1) have "calls_doLater xs" by (simp add: calls_doLater_def)
    from Cons.IH [OF this held1] Inr show ?thesis by simp
  qed
qed

lemma runDeferredCalls_deadlock:
  assumes "\<not> list_all (\<lambda>c. \<not> calls_doLater c) (s_deferredCalls s)"
  shows "runDeferredCalls s = Inl Deadlock"
proof (cases "runDeferredCalls s")
  case (Inl e)
  then show ?thesis by (cases e) simp
next
  case (Inr s')
  let ?s0 = "s\<lparr>held := insert DeferredCallsMutex (held s)\<rparr>"
  from Inr have free: "DeferredCallsMutex \<notin> held s"
    by (simp add: runDeferredCalls_def scoped_lock_def split: if_splits)
  with Inr obtain s1 where loop: "for_each_call DeferredCalls 0 ?s0 = Inr s1"
    by (auto simp add: runDeferredCalls_def scoped_lock_def split: sum.splits)
  have "list_all (\<lambda>c. \<not> calls_doLater c) (drop i (s_deferredCalls t))"
    if "for_each_call DeferredCalls i t = Inr t'" and "DeferredCallsMutex \<in> held t"
    for i t t'
    using that
  proof (induction "DeferredCalls" i t rule: for_each_call.induct)
    case (1 i t)
    show ?case
    proof (cases "i < length (s_deferredCalls t)")
      case False
      then show ?thesis by simp
    next
      case True
      with "1.prems"(1) obtain t1 where inv: "invoke (s_deferredCalls t ! i) t = Inr t1"
        and rest: "for_each_call DeferredCalls (Suc i) t1 = Inr t'"
        by (auto simp add: for_each_call.simps [of DeferredCalls i t] split: sum.splits)
      from invoke_frame [OF inv] "1.prems"(2) have held1: "DeferredCallsMutex \<in> held t1"
        by simp
      have same: "s_deferredCalls t1 = s_deferredCalls t"
        by (rule invoke_deferred_locked [OF inv "1.prems"(2)])
      have "\<not> calls_doLater (s_deferredCalls t ! i)"
      proof
        assume "calls_doLater (s_deferredCalls t ! i)"
        from run_body_deadlock [OF this, of "t\<lparr>invoked := invoked t @ [s_deferredCalls t ! i]\<rparr>"]
          "1.prems"(2) inv
        show False by (simp add: invoke_def)
      qed
      moreover
      have True': "i < length (callbacks DeferredCalls t)" using True by simp
      have inv': "invoke (callbacks DeferredCalls t ! i) t = Inr t1" using inv by simp
      from "1.hyps" [OF True' inv' rest held1] same
      have "list_all (\<lambda>c. \<not> calls_doLater c) (drop (Suc i) (s_deferredCalls t))" by simp
      moreover from True have "drop i (s_deferredCalls t)
          = s_deferredCalls t ! i # drop (Suc i) (s_deferredCalls t)"
        by (simp add: Cons_nth_drop_Suc)
      ultimately show ?thesis by simp
    qed
  qed
  from this [OF loop] assms show ?thesis by simp
qed

text \<open>
  C2 as stated fails for a callback that schedules a deferred call while it runs:
  \<open>runDeferredCalls\<close> holds \<open>s_deferredCallsMutex\<close> while it calls the callbacks, so the
  \<open>doLater\<close> of the callback locks a mutex that its own thread owns, and the pass does not
  come to an end. The scheduled callback is not run by a next pass.
\<close>

theorem runDeferredCalls_reentrant_counterexample:
  "doLater [DoLater [Local 2], Local 1] initial
     = Inr (initial\<lparr>s_deferredCalls := [[DoLater [Local 2], Local 1]]\<rparr>)
   \<and> runDeferredCalls (initial\<lparr>s_deferredCalls := [[DoLater [Local 2], Local 1]]\<rparr>)
     = Inl Deadlock"
  by (simp add: doLater_result initial_def runDeferredCalls_def scoped_lock_def
      for_each_call.simps [of DeferredCalls 0] invoke_def)

text \<open>
  C2, amended. With no lock held and no queued callback that calls \<open>doLater\<close> itself,
  \<open>runDeferredCalls\<close> calls every queued callback once, in the order of submission, and
  leaves the queue empty. A callback scheduled after the pass is queued, and the next
  \<open>runDeferredCalls\<close> calls it.
\<close>

theorem runDeferredCalls_in_order:
  assumes "held s = {}"
    and "list_all (\<lambda>c. \<not> calls_doLater c) (s_deferredCalls s)"
  shows "\<exists>s'. runDeferredCalls s = Inr s'
    \<and> invoked s' = invoked s @ s_deferredCalls s
    \<and> s_deferredCalls s' = []
    \<and> held s' = {}
    \<and> (\<exists>s2. doLater f s' = Inr s2 \<and> s_deferredCalls s2 = [f] \<and> invoked s2 = invoked s'
          \<and> (\<not> calls_doLater f \<longrightarrow>
                (\<exists>s3. runDeferredCalls s2 = Inr s3 \<and> invoked s3 = invoked s' @ [f]
                   \<and> s_deferredCalls s3 = [])))"
proof -
  from runDeferredCalls_returns [OF _ _ assms(2)] assms(1) obtain s'
    where run: "runDeferredCalls s = Inr s'" by auto
  note after = runDeferredCalls_invoked [OF run]
  let ?s2 = "s'\<lparr>s_deferredCalls := s_deferredCalls s' @ [f]\<rparr>"
  from after assms(1) have later: "doLater f s' = Inr ?s2"
    by (simp add: doLater_result)
  have next_pass: "\<exists>s3. runDeferredCalls ?s2 = Inr s3 \<and> invoked s3 = invoked s' @ [f]
      \<and> s_deferredCalls s3 = []" if f: "\<not> calls_doLater f"
  proof -
    from after assms(1) f have "DeferredCallsMutex \<notin> held ?s2" "TasksFinishedMutex \<notin> held ?s2"
      "list_all (\<lambda>c. \<not> calls_doLater c) (s_deferredCalls ?s2)"
      by simp_all
    from runDeferredCalls_returns [OF this] obtain s3
      where run3: "runDeferredCalls ?s2 = Inr s3" by blast
    from runDeferredCalls_invoked [OF run3] after run3 show ?thesis
      by auto
  qed
  from run after assms(1) later next_pass show ?thesis by simp
qed

theorem runDeferredCalls_in_order_witness:
  "held (initial\<lparr>s_deferredCalls := [[Local 1], [RunWhenTasksFinished [Local 3], Local 2]]\<rparr>) = {}
   \<and> list_all (\<lambda>c. \<not> calls_doLater c) [[Local 1], [RunWhenTasksFinished [Local 3], Local 2]]
   \<and> \<not> calls_doLater [Local 4]
   \<and> (\<exists>s' s2 s3.
        runDeferredCalls
          (initial\<lparr>s_deferredCalls := [[Local 1], [RunWhenTasksFinished [Local 3], Local 2]]\<rparr>)
          = Inr s'
        \<and> invoked s' = [[Local 1], [RunWhenTasksFinished [Local 3], Local 2]]
        \<and> s_deferredCalls s' = []
        \<and> doLater [Local 4] s' = Inr s2
        \<and> runDeferredCalls s2 = Inr s3
        \<and> invoked s3 = [[Local 1], [RunWhenTasksFinished [Local 3], Local 2], [Local 4]])"
proof -
  let ?s = "initial\<lparr>s_deferredCalls := [[Local 1], [RunWhenTasksFinished [Local 3], Local 2]]\<rparr>"
  have h1: "held ?s = {}" by (simp add: initial_def)
  have h2: "list_all (\<lambda>c. \<not> calls_doLater c) (s_deferredCalls ?s)"
    by (simp add: calls_doLater_def)
  have h3: "\<not> calls_doLater [Local 4]" by (simp add: calls_doLater_def)
  from runDeferredCalls_in_order [OF h1 h2, of "[Local 4]"] h3
  obtain s' s2 s3 where r: "runDeferredCalls ?s = Inr s'"
    "invoked s' = invoked ?s @ s_deferredCalls ?s" "s_deferredCalls s' = []"
    "doLater [Local 4] s' = Inr s2" "runDeferredCalls s2 = Inr s3"
    "invoked s3 = invoked s' @ [[Local 4]]"
    by blast
  from r(2) have i1: "invoked s' = [[Local 1], [RunWhenTasksFinished [Local 3], Local 2]]"
    by (simp add: initial_def)
  with r(6) have i2: "invoked s3
      = [[Local 1], [RunWhenTasksFinished [Local 3], Local 2], [Local 4]]"
    by simp
  from r(1) i1 r(3) r(4) r(5) i2 have "\<exists>s' s2 s3. runDeferredCalls ?s = Inr s'
        \<and> invoked s' = [[Local 1], [RunWhenTasksFinished [Local 3], Local 2]]
        \<and> s_deferredCalls s' = []
        \<and> doLater [Local 4] s' = Inr s2
        \<and> runDeferredCalls s2 = Inr s3
        \<and> invoked s3 = [[Local 1], [RunWhenTasksFinished [Local 3], Local 2], [Local 4]]"
    by blast
  with h1 h2 h3 show ?thesis by simp
qed

lemma owned_initial: "owned initial"
  by (simp add: owned_def initial_def)

lemma owned_createTask:
  assumes "owned s" and "createTask name maxValue bg function s = Inr (h, s')"
  shows "owned s'"
proof -
  from assms(2) have s': "s' = s\<lparr>heap := (heap s)(next_addr s \<mapsto> Task name maxValue bg function),
      next_addr := Suc (next_addr s), s_tasks := s_tasks s @ [next_addr s],
      s_taskQueue := s_taskQueue s @ [next_addr s]\<rparr>"
    by (simp add: createTask_def Let_def split: if_splits)
  from assms(1) show ?thesis
    by (auto simp add: s' owned_def list_all_iff)
qed

lemma owned_erase_finished:
  assumes "owned s"
  shows "owned (erase_finished s)"
  using assms by (auto simp add: owned_def erase_finished_def list_all_iff)

lemma count_partition:
  "list_all (\<lambda>a. st a \<noteq> None) xs \<Longrightarrow>
   length (filter (foreground_task st) xs) + length (filter (background_task st) xs) = length xs"
proof (induction xs)
  case Nil
  show ?case by simp
next
  case (Cons a xs)
  then obtain t where "st a = Some t" by auto
  with Cons show ?case
    by (simp add: foreground_task_def background_task_def)
qed

lemma count_ignores_finished:
  assumes "st a = Some t"
  shows "foreground_task (st(a \<mapsto> finish t)) = foreground_task st"
    and "background_task (st(a \<mapsto> finish t)) = background_task st"
  using assms
  by (auto simp add: foreground_task_def background_task_def finish_def isBackgroundTask_def
      fun_eq_iff)

text \<open>
  C3 as stated fails: a finished foreground task that is still in the registry is counted
  by \<open>getRunningTaskCount\<close>.
\<close>

theorem count_includes_finished_counterexample:
  "s_tasks (initial\<lparr>heap := [0 \<mapsto> finish (Task ''load'' 10 False [])], next_addr := 1,
       s_tasks := [0]\<rparr>) = [0]
   \<and> heap (initial\<lparr>heap := [0 \<mapsto> finish (Task ''load'' 10 False [])], next_addr := 1,
       s_tasks := [0]\<rparr>) 0 = Some (finish (Task ''load'' 10 False []))
   \<and> isFinished (finish (Task ''load'' 10 False []))
   \<and> \<not> isBackgroundTask (finish (Task ''load'' 10 False []))
   \<and> getRunningTaskCount (initial\<lparr>heap := [0 \<mapsto> finish (Task ''load'' 10 False [])],
       next_addr := 1, s_tasks := [0]\<rparr>) = Inr 1"
  by (simp add: initial_def getRunningTaskCount_def foreground_task_def finish_def Task_def
      isFinished_def isBackgroundTask_def)

text \<open>
  C3, amended. \<open>getRunningTaskCount\<close> returns the number of registered tasks that are
  not background tasks and \<open>getRunningBackgroundTaskCount\<close> the number of those that are,
  finished or not: the two counts add up to the size of the registry, and finishing a task
  changes neither.
\<close>

theorem counts_partition_registry:
  assumes "QueueMutex \<notin> held s" and "owned s"
  shows "getRunningTaskCount s
      = Inr (length (filter (\<lambda>a. \<exists>t. heap s a = Some t \<and> \<not> isBackgroundTask t) (s_tasks s)))
    \<and> getRunningBackgroundTaskCount s
      = Inr (length (filter (\<lambda>a. \<exists>t. heap s a = Some t \<and> isBackgroundTask t) (s_tasks s)))
    \<and> length (filter (\<lambda>a. \<exists>t. heap s a = Some t \<and> \<not> isBackgroundTask t) (s_tasks s))
      + length (filter (\<lambda>a. \<exists>t. heap s a = Some t \<and> isBackgroundTask t) (s_tasks s))
      = length (s_tasks s)
    \<and> (\<forall>a t. heap s a = Some t \<longrightarrow>
          getRunningTaskCount (s\<lparr>heap := (heap s)(a \<mapsto> finish t)\<rparr>) = getRunningTaskCount s
          \<and> getRunningBackgroundTaskCount (s\<lparr>heap := (heap s)(a \<mapsto> finish t)\<rparr>)
            = getRunningBackgroundTaskCount s)"
proof -
  have fg: "foreground_task (heap s) = (\<lambda>a. \<exists>t. heap s a = Some t \<and> \<not> isBackgroundTask t)"
    by (auto simp add: foreground_task_def fun_eq_iff split: option.splits)
  have bg: "background_task (heap s) = (\<lambda>a. \<exists>t. heap s a = Some t \<and> isBackgroundTask t)"
    by (auto simp add: background_task_def fun_eq_iff split: option.splits)
  from assms(2) have "list_all (\<lambda>a. heap s a \<noteq> None) (s_tasks s)"
    by (simp add: owned_def)
  from count_partition [OF this] have sum: "length (filter (foreground_task (heap s)) (s_tasks s))
      + length (filter (background_task (heap s)) (s_tasks s)) = length (s_tasks s)" .
  have 1: "getRunningTaskCount s = Inr (length (filter (foreground_task (heap s)) (s_tasks s)))"
    using assms(1) by (simp add: getRunningTaskCount_def)
  have 2: "getRunningBackgroundTaskCount s
      = Inr (length (filter (background_task (heap s)) (s_tasks s)))"
    using assms(1) by (simp add: getRunningBackgroundTaskCount_def)
  have 3: "\<forall>a t. heap s a = Some t \<longrightarrow>
          getRunningTaskCount (s\<lparr>heap := (heap s)(a \<mapsto> finish t)\<rparr>) = getRunningTaskCount s
          \<and> getRunningBackgroundTaskCount (s\<lparr>heap := (heap s)(a \<mapsto> finish t)\<rparr>)
            = getRunningBackgroundTaskCount s"
    by (simp add: getRunningTaskCount_def getRunningBackgroundTaskCount_def
        count_ignores_finished)
  from 1 2 sum 3 show ?thesis unfolding fg bg by blast
qed


theorem counts_partition_registry_witness:
  "QueueMutex \<notin> held (initial\<lparr>heap := [0 \<mapsto> finish (Task ''load'' 10 False []),
        1 \<mapsto> Task ''scan'' 0 True [], 2 \<mapsto> Task ''save'' 5 False []],
        next_addr := 3, s_tasks := [0, 1, 2]\<rparr>)
   \<and> owned (initial\<lparr>heap := [0 \<mapsto> finish (Task ''load'' 10 False []),
        1 \<mapsto> Task ''scan'' 0 True [], 2 \<mapsto> Task ''save'' 5 False []],
        next_addr := 3, s_tasks := [0, 1, 2]\<rparr>)
   \<and> getRunningTaskCount (initial\<lparr>heap := [0 \<mapsto> finish (Task ''load'' 10 False []),
        1 \<mapsto> Task ''scan'' 0 True [], 2 \<mapsto> Task ''save'' 5 False []],
        next_addr := 3, s_tasks := [0, 1, 2]\<rparr>) = Inr 2
   \<and> getRunningBackgroundTaskCount (initial\<lparr>heap := [0 \<mapsto> finish (Task ''load'' 10 False []),
        1 \<mapsto> Task ''scan'' 0 True [], 2 \<mapsto> Task ''save'' 5 False []],
        next_addr := 3, s_tasks := [0, 1, 2]\<rparr>) = Inr 1
   \<and> getRunningTaskCount (initial\<lparr>heap := [0 \<mapsto> finish (Task ''load'' 10 False []),
        1 \<mapsto> Task ''scan'' 0 True [], 2 \<mapsto> finish (Task ''save'' 5 False [])],
        next_addr := 3, s_tasks := [0, 1, 2]\<rparr>) = Inr 2"
proof -
  let ?s = "initial\<lparr>heap := [0 \<mapsto> finish (Task ''load'' 10 False []),
        1 \<mapsto> Task ''scan'' 0 True [], 2 \<mapsto> Task ''save'' 5 False []],
        next_addr := 3, s_tasks := [0, 1, 2]\<rparr>"
  have h1: "QueueMutex \<notin> held ?s" by (simp add: initial_def)
  have h2: "owned ?s" by (simp add: owned_def initial_def)
  have h3: "heap ?s 2 = Some (Task ''save'' 5 False [])" by simp
  note facts = counts_partition_registry [OF h1 h2]
  from facts have "getRunningTaskCount ?s = Inr (length (filter
      (\<lambda>a. \<exists>t. heap ?s a = Some t \<and> \<not> isBackgroundTask t) (s_tasks ?s)))"
    by blast
  then have a: "getRunningTaskCount ?s = Inr 2"
    by (simp add: initial_def isBackgroundTask_def finish_def Task_def)
  from facts have "getRunningBackgroundTaskCount ?s = Inr (length (filter
      (\<lambda>a. \<exists>t. heap ?s a = Some t \<and> isBackgroundTask t) (s_tasks ?s)))"
    by blast
  then have b: "getRunningBackgroundTaskCount ?s = Inr 1"
    by (simp add: initial_def isBackgroundTask_def finish_def Task_def)
  from facts h3 have "getRunningTaskCount
      (?s\<lparr>heap := (heap ?s)(2 \<mapsto> finish (Task ''save'' 5 False []))\<rparr>)
      = getRunningTaskCount ?s"
    by blast
  with a have c: "getRunningTaskCount
      (?s\<lparr>heap := (heap ?s)(2 \<mapsto> finish (Task ''save'' 5 False []))\<rparr>) = Inr 2"
    by simp
  have eq: "?s\<lparr>heap := (heap ?s)(2 \<mapsto> finish (Task ''save'' 5 False []))\<rparr>
      = initial\<lparr>heap := [0 \<mapsto> finish (Task ''load'' 10 False []),
        1 \<mapsto> Task ''scan'' 0 True [], 2 \<mapsto> finish (Task ''save'' 5 False [])],
        next_addr := 3, s_tasks := [0, 1, 2]\<rparr>"
    by (simp add: initial_def)
  note d = c [unfolded eq]
  from h1 h2 a b d show ?thesis by blast
qed

lemma erase_finished_fields:
  "s_tasks (erase_finished s) = filter (\<lambda>a. \<not> collectable (heap s) a) (s_tasks s)"
  "s_taskQueue (erase_finished s) = s_taskQueue s"
  "s_deferredCalls (erase_finished s) = s_deferredCalls s"
  "s_tasksFinishedCallbacks (erase_finished s) = s_tasksFinishedCallbacks s"
  "held (erase_finished s) = held s"
  "invoked (erase_finished s) = invoked s"
  by (simp_all add: erase_finished_def)

lemma erase_finished_held:
  "erase_finished (s\<lparr>held := h\<rparr>) = (erase_finished s)\<lparr>held := h\<rparr>"
  by (simp add: erase_finished_def cong: if_cong)

lemma erase_finished_locked:
  "QueueMutex \<notin> held s \<Longrightarrow>
   scoped_lock QueueMutex (\<lambda>s. Inr (erase_finished s)) s = Inr (erase_finished s)"
  by (simp add: scoped_lock_def erase_finished_held erase_finished_fields)

text \<open>The two blocks of \<open>collectGarbage\<close>, when the call comes back.\<close>

lemma collectGarbage_result:
  assumes "collectGarbage s = Inr s'"
  shows "QueueMutex \<notin> held s \<and> held s' = held s
    \<and> s_tasks s' = filter (\<lambda>a. \<not> collectable (heap s) a) (s_tasks s)
    \<and> (if s_tasks s' = []
        then (\<exists>extra. invoked s' = invoked s @ s_tasksFinishedCallbacks s @ extra)
             \<and> s_tasksFinishedCallbacks s' = []
        else invoked s' = invoked s
             \<and> s_tasksFinishedCallbacks s' = s_tasksFinishedCallbacks s)"
proof -
  from assms have q: "QueueMutex \<notin> held s"
    by (simp add: collectGarbage_def scoped_lock_def split: if_splits)
  let ?s1 = "erase_finished s"
  have first: "scoped_lock QueueMutex (\<lambda>s. Inr (erase_finished s)) s = Inr ?s1"
    using q by (rule erase_finished_locked)
  show ?thesis
  proof (cases "s_tasks ?s1 = []")
    case False
    with assms first have "s' = ?s1" by (simp add: collectGarbage_def)
    with False q show ?thesis by (simp add: erase_finished_fields)
  next
    case True
    let ?s2 = "?s1\<lparr>held := insert DeferredCallsMutex (held ?s1)\<rparr>"
    from assms first True have d: "DeferredCallsMutex \<notin> held ?s1"
      by (simp add: collectGarbage_def scoped_lock_def split: if_splits)
    with assms first True obtain s3
      where loop: "for_each_call TasksFinishedCallbacks 0 ?s2 = Inr s3"
      and s': "s' = s3\<lparr>s_tasksFinishedCallbacks := [], held := held s3 - {DeferredCallsMutex}\<rparr>"
      by (auto simp add: collectGarbage_def scoped_lock_def split: sum.splits)
    from for_each_call_invoked [OF loop] obtain extra where
      frame: "s_tasks s3 = s_tasks ?s2" "held s3 = held ?s2"
      and ext: "callbacks TasksFinishedCallbacks s3 = callbacks TasksFinishedCallbacks ?s2 @ extra"
      and inv: "invoked s3 = invoked ?s2 @ drop 0 (callbacks TasksFinishedCallbacks s3)"
      by auto
    from inv ext have "invoked s' = invoked s @ s_tasksFinishedCallbacks s @ extra"
      by (simp add: s' erase_finished_fields)
    then have "\<exists>extra. invoked s' = invoked s @ s_tasksFinishedCallbacks s @ extra" ..
    with True frame d q s' show ?thesis by (simp add: erase_finished_fields)
  qed
qed

lemma collectGarbage_returns:
  assumes "held s = {}"
    and "list_all (collectable (heap s)) (s_tasks s) \<longrightarrow>
         list_all never_defers (s_tasksFinishedCallbacks s)"
  shows "\<exists>s'. collectGarbage s = Inr s'"
proof -
  let ?s1 = "erase_finished s"
  have first: "scoped_lock QueueMutex (\<lambda>s. Inr (erase_finished s)) s = Inr ?s1"
    using assms(1) by (simp add: erase_finished_locked)
  show ?thesis
  proof (cases "s_tasks ?s1 = []")
    case False
    with first show ?thesis by (simp add: collectGarbage_def)
  next
    case True
    then have "list_all (collectable (heap s)) (s_tasks s)"
      by (simp add: erase_finished_fields filter_empty_conv list_all_iff)
    with assms(2) have safe: "list_all never_defers (s_tasksFinishedCallbacks s)" by simp
    let ?s2 = "?s1\<lparr>held := insert DeferredCallsMutex (held ?s1)\<rparr>"
    have "TasksFinishedMutex \<notin> held ?s2"
      and "list_all never_defers (drop 0 (s_tasksFinishedCallbacks ?s2))"
      using assms(1) safe by (simp_all add: erase_finished_fields)
    from for_each_finished_returns [OF this] obtain s3
      where "for_each_call TasksFinishedCallbacks 0 ?s2 = Inr s3" by blast
    with first True assms(1) show ?thesis
      by (simp add: collectGarbage_def scoped_lock_def erase_finished_fields)
  qed
qed

text \<open>
  C5. \<open>collectGarbage\<close> removes a registered task from the registry if and only if the
  task is finished and has no exception; a task with \<open>hadException\<close> set stays. This is
  so after the first block of the function, and when the function returns; and the
  function returns from every state with no lock held, unless the registry becomes empty
  and a completion callback calls \<open>doLater\<close>.
\<close>

theorem collectGarbage_removes_iff:
  assumes "task \<in> set (s_tasks s)" and "heap s task = Some t"
  shows "(task \<notin> set (s_tasks (erase_finished s))) = (isFinished t \<and> \<not> hadException t)
    \<and> (collectGarbage s = Inr s' \<longrightarrow>
          (task \<notin> set (s_tasks s')) = (isFinished t \<and> \<not> hadException t)
          \<and> (hadException t \<longrightarrow> task \<in> set (s_tasks s')))
    \<and> (held s = {} \<and> list_all never_defers (s_tasksFinishedCallbacks s) \<longrightarrow>
          (\<exists>s'. collectGarbage s = Inr s'))"
proof -
  from assms have c: "collectable (heap s) task = (isFinished t \<and> \<not> hadException t)"
    by (simp add: collectable_def)
  with assms(1) have 1: "(task \<notin> set (s_tasks (erase_finished s)))
      = (isFinished t \<and> \<not> hadException t)"
    by (simp add: erase_finished_fields)
  have 2: "(task \<notin> set (s_tasks s')) = (isFinished t \<and> \<not> hadException t)
      \<and> (hadException t \<longrightarrow> task \<in> set (s_tasks s'))" if "collectGarbage s = Inr s'"
    using collectGarbage_result [OF that] c assms(1) by auto
  have 3: "\<exists>s'. collectGarbage s = Inr s'"
    if "held s = {} \<and> list_all never_defers (s_tasksFinishedCallbacks s)"
    using collectGarbage_returns [of s] that by simp
  from 1 2 3 show ?thesis by blast
qed


theorem collectGarbage_removes_iff_witness:
  "0 \<in> set (s_tasks (initial\<lparr>heap := [0 \<mapsto> execute (Task ''load'' 10 False [Call (Update 10)]),
        1 \<mapsto> execute (Task ''save'' 0 False [ThrowStd ''disk full'']),
        2 \<mapsto> Task ''scan'' 0 True []], next_addr := 3, s_tasks := [0, 1, 2]\<rparr>))
   \<and> heap (initial\<lparr>heap := [0 \<mapsto> execute (Task ''load'' 10 False [Call (Update 10)]),
        1 \<mapsto> execute (Task ''save'' 0 False [ThrowStd ''disk full'']),
        2 \<mapsto> Task ''scan'' 0 True []], next_addr := 3, s_tasks := [0, 1, 2]\<rparr>) 0
       = Some (execute (Task ''load'' 10 False [Call (Update 10)]))
   \<and> isFinished (execute (Task ''load'' 10 False [Call (Update 10)]))
   \<and> \<not> hadException (execute (Task ''load'' 10 False [Call (Update 10)]))
   \<and> hadException (execute (Task ''save'' 0 False [ThrowStd ''disk full'']))
   \<and> (\<exists>s'. collectGarbage (initial\<lparr>heap := [0 \<mapsto> execute (Task ''load'' 10 False [Call (Update 10)]),
        1 \<mapsto> execute (Task ''save'' 0 False [ThrowStd ''disk full'']),
        2 \<mapsto> Task ''scan'' 0 True []], next_addr := 3, s_tasks := [0, 1, 2]\<rparr>) = Inr s'
      \<and> 0 \<notin> set (s_tasks s') \<and> 1 \<in> set (s_tasks s'))"
proof -
  let ?t0 = "execute (Task ''load'' 10 False [Call (Update 10)])"
  let ?t1 = "execute (Task ''save'' 0 False [ThrowStd ''disk full''])"
  let ?s = "initial\<lparr>heap := [0 \<mapsto> ?t0, 1 \<mapsto> ?t1, 2 \<mapsto> Task ''scan'' 0 True []],
      next_addr := 3, s_tasks := [0, 1, 2]\<rparr>"
  have m0: "0 \<in> set (s_tasks ?s)" and m1: "1 \<in> set (s_tasks ?s)" by simp_all
  have h0: "heap ?s 0 = Some ?t0" and h1: "heap ?s 1 = Some ?t1" by simp_all
  have f0: "isFinished ?t0" "\<not> hadException ?t0"
    by (simp_all add: execute_def Task_def update_def Let_def finish_def isFinished_def
        hadException_def)
  have f1: "hadException ?t1"
    by (simp add: execute_def Task_def exception_def finish_def hadException_def)
  have quiet: "held ?s = {} \<and> list_all never_defers (s_tasksFinishedCallbacks ?s)"
    by (simp add: initial_def)
  from collectGarbage_removes_iff [OF m0 h0] quiet obtain s'
    where run: "collectGarbage ?s = Inr s'" by blast
  from collectGarbage_removes_iff [OF m0 h0, of s'] run f0 have gone: "0 \<notin> set (s_tasks s')"
    by blast
  from collectGarbage_removes_iff [OF m1 h1, of s'] run f1 have kept: "1 \<in> set (s_tasks s')"
    by blast
  from run gone kept have "\<exists>s'. collectGarbage ?s = Inr s'
      \<and> 0 \<notin> set (s_tasks s') \<and> 1 \<in> set (s_tasks s')"
    by blast
  with m0 h0 f0 f1 show ?thesis by blast
qed

lemma for_each_call_no_registration:
  "for_each_call TasksFinishedCallbacks i s = Inr s' \<Longrightarrow>
   list_all (\<lambda>c. \<not> calls_runWhenTasksFinished c) (drop i (s_tasksFinishedCallbacks s)) \<Longrightarrow>
   s_tasksFinishedCallbacks s' = s_tasksFinishedCallbacks s"
proof (induction "TasksFinishedCallbacks" i s rule: for_each_call.induct)
  case (1 i s)
  show ?case
  proof (cases "i < length (s_tasksFinishedCallbacks s)")
    case False
    with "1.prems"(1) show ?thesis
      by (simp add: for_each_call.simps [of TasksFinishedCallbacks i s])
  next
    case True
    let ?c = "s_tasksFinishedCallbacks s ! i"
    from True "1.prems"(1) obtain s1 where inv: "invoke ?c s = Inr s1"
      and rest: "for_each_call TasksFinishedCallbacks (Suc i) s1 = Inr s'"
      by (auto simp add: for_each_call.simps [of TasksFinishedCallbacks i s] split: sum.splits)
    from True have "drop i (s_tasksFinishedCallbacks s)
        = ?c # drop (Suc i) (s_tasksFinishedCallbacks s)"
      by (simp add: Cons_nth_drop_Suc)
    with "1.prems"(2) have c: "\<not> calls_runWhenTasksFinished ?c"
      and others: "list_all (\<lambda>c. \<not> calls_runWhenTasksFinished c)
        (drop (Suc i) (s_tasksFinishedCallbacks s))"
      by simp_all
    have "concat (map (added TasksFinishedCallbacks) xs) = []"
      if "\<not> calls_runWhenTasksFinished xs" for xs
      using that
    proof (induction xs)
      case Nil
      show ?case by simp
    next
      case (Cons x xs)
      then have "\<not> is_RunWhenTasksFinished x" and "\<not> calls_runWhenTasksFinished xs"
        by (simp_all add: calls_runWhenTasksFinished_def)
      with Cons.IH show ?case by (cases x) simp_all
    qed
    from this [OF c] invoke_callbacks [OF inv, of TasksFinishedCallbacks]
    have same: "s_tasksFinishedCallbacks s1 = s_tasksFinishedCallbacks s" by simp
    have True': "i < length (callbacks TasksFinishedCallbacks s)" using True by simp
    have inv': "invoke (callbacks TasksFinishedCallbacks s ! i) s = Inr s1" using inv by simp
    from others same have "list_all (\<lambda>c. \<not> calls_runWhenTasksFinished c)
        (drop (Suc i) (s_tasksFinishedCallbacks s1))"
      by simp
    from "1.hyps" [OF True' inv' rest this] same show ?thesis by simp
  qed
qed

lemma collectGarbage_fires:
  assumes "collectGarbage s = Inr s'" and "list_all (collectable (heap s)) (s_tasks s)"
  shows "s_tasks s' = [] \<and> held s' = held s \<and> s_tasksFinishedCallbacks s' = []
    \<and> (\<exists>extra. invoked s' = invoked s @ s_tasksFinishedCallbacks s @ extra
          \<and> (list_all (\<lambda>c. \<not> calls_runWhenTasksFinished c) (s_tasksFinishedCallbacks s)
               \<longrightarrow> extra = []))"
proof -
  let ?s1 = "erase_finished s"
  let ?s2 = "?s1\<lparr>held := insert DeferredCallsMutex (held ?s1)\<rparr>"
  from assms(2) have empty: "s_tasks ?s1 = []"
    by (simp add: erase_finished_fields filter_empty_conv list_all_iff)
  from assms(1) have q: "QueueMutex \<notin> held s"
    by (simp add: collectGarbage_def scoped_lock_def split: if_splits)
  note first = erase_finished_locked [OF q]
  from assms(1) first empty have d: "DeferredCallsMutex \<notin> held ?s1"
    by (simp add: collectGarbage_def scoped_lock_def split: if_splits)
  with assms(1) first empty obtain s3
    where loop: "for_each_call TasksFinishedCallbacks 0 ?s2 = Inr s3"
    and s': "s' = s3\<lparr>s_tasksFinishedCallbacks := [], held := held s3 - {DeferredCallsMutex}\<rparr>"
    by (auto simp add: collectGarbage_def scoped_lock_def split: sum.splits)
  from for_each_call_invoked [OF loop] obtain extra where
    frame: "s_tasks s3 = s_tasks ?s2" "held s3 = held ?s2"
    and ext: "callbacks TasksFinishedCallbacks s3 = callbacks TasksFinishedCallbacks ?s2 @ extra"
    and inv: "invoked s3 = invoked ?s2 @ drop 0 (callbacks TasksFinishedCallbacks s3)"
    by auto
  from inv ext have i: "invoked s' = invoked s @ s_tasksFinishedCallbacks s @ extra"
    by (simp add: s' erase_finished_fields)
  have "extra = []"
    if "list_all (\<lambda>c. \<not> calls_runWhenTasksFinished c) (s_tasksFinishedCallbacks s)"
  proof -
    from that have "list_all (\<lambda>c. \<not> calls_runWhenTasksFinished c)
        (drop 0 (s_tasksFinishedCallbacks ?s2))"
      by (simp add: erase_finished_fields)
    from for_each_call_no_registration [OF loop this] ext show ?thesis by simp
  qed
  with i empty frame d s' show ?thesis by (simp add: erase_finished_fields)
qed












section \<open>The life of a task and its holder\<close>

lemma createTask_holder:
  assumes "createTask name maxValue bg function s = Inr (h, s')"
  shows "lock (heap s') (m_task h) = Some (Task name maxValue bg function)"
    and "isRunning (heap s') h"
    and "s_tasks s' = s_tasks s @ [next_addr s]"
    and "s_taskQueue s' = s_taskQueue s @ [next_addr s]"
  using assms
  by (auto simp add: createTask_def Let_def lock_def isRunning_def isFinished_def Task_def
      split: if_splits)

lemma createTask_returns:
  "QueueMutex \<notin> held s \<Longrightarrow> \<exists>h s'. createTask name maxValue bg function s = Inr (h, s')"
  by (simp add: createTask_def Let_def)

text \<open>
  A task that \<open>collectGarbage\<close> erases, and that no worker queue holds any more, is
  destroyed: every query of its holder gives the answer for a dead handle.
\<close>

lemma collected_holder_dead:
  assumes "task \<in> set (s_tasks s)" and "collectable (heap s) task"
    and "task \<notin> set (s_taskQueue s)"
  shows "lock (heap (erase_finished s)) (m_task (TaskHolder (Some task))) = None"
    and "\<not> isRunning (heap (erase_finished s)) (TaskHolder (Some task))"
    and "getProgress (heap (erase_finished s)) (TaskHolder (Some task)) = 0"
proof -
  from assms show dead: "lock (heap (erase_finished s)) (m_task (TaskHolder (Some task))) = None"
    by (simp add: lock_def erase_finished_def)
  from holder_dead(1) [OF dead] show "\<not> isRunning (heap (erase_finished s)) (TaskHolder (Some task))" .
  from holder_dead(5) [OF dead] show "getProgress (heap (erase_finished s)) (TaskHolder (Some task)) = 0" .
qed

lemma owned_collectGarbage:
  assumes "owned s" and "collectGarbage s = Inr s'"
  shows "owned s'"
proof -
  from assms(2) have q: "QueueMutex \<notin> held s"
    by (simp add: collectGarbage_def scoped_lock_def split: if_splits)
  note first = erase_finished_locked [OF q]
  have o1: "owned (erase_finished s)" by (rule owned_erase_finished [OF assms(1)])
  show ?thesis
  proof (cases "s_tasks (erase_finished s) = []")
    case False
    with assms(2) first have "s' = erase_finished s" by (simp add: collectGarbage_def)
    with o1 show ?thesis by simp
  next
    case True
    let ?s2 = "(erase_finished s)\<lparr>held := insert DeferredCallsMutex (held (erase_finished s))\<rparr>"
    from assms(2) first True obtain s3
      where loop: "for_each_call TasksFinishedCallbacks 0 ?s2 = Inr s3"
      and s': "s' = s3\<lparr>s_tasksFinishedCallbacks := [], held := held s3 - {DeferredCallsMutex}\<rparr>"
      by (auto simp add: collectGarbage_def scoped_lock_def split: sum.splits if_splits)
    from for_each_call_invoked [OF loop] have "heap s3 = heap (erase_finished s)"
      "s_tasks s3 = s_tasks (erase_finished s)" "s_taskQueue s3 = s_taskQueue (erase_finished s)"
      by auto
    with o1 s' show ?thesis by (simp add: owned_def)
  qed
qed

end
